theory Spec2Isabelle
  imports Main "HOL-Library.Sublist"
begin

section \<open>Text and the replacement table of \<open>update_imports.py\<close>\<close>

text \<open>
  A text buffer is a \<open>string\<close>. Every pattern of the table is ASCII, so matching on the
  characters of the decoded text and matching on its bytes agree. The two quote characters
  are written as character codes.
\<close>

abbreviation SQ :: char where "SQ \<equiv> CHR 0x27"
abbreviation DQ :: char where "DQ \<equiv> CHR 0x22"

text \<open>
  Python's \<open>s.replace(old, new)\<close>: scanning from the left, every occurrence of \<open>old\<close>
  that does not overlap an occurrence already replaced becomes \<open>new\<close>; the scan goes on
  behind the replaced occurrence. With an empty \<open>old\<close>, \<open>new\<close> is put before every
  character and at the end.
\<close>

function str_replace :: "string \<Rightarrow> string \<Rightarrow> string \<Rightarrow> string" where
  "str_replace old new [] = (if old = [] then new else [])"
| "str_replace old new (c # cs) =
     (if old = [] then new @ c # str_replace old new cs
      else if prefix old (c # cs) then new @ str_replace old new (drop (length old) (c # cs))
      else c # str_replace old new cs)"
  by pat_completeness auto
termination
  by (relation "measure (\<lambda>(old, new, s). length s)") auto

text \<open>
  \<open>REPLACEMENTS\<close>: the dictionary literal of the script. A Python dictionary iterates in
  insertion order and the keys are distinct, so \<open>REPLACEMENTS.items()\<close> is this list.
\<close>

definition REPLACEMENTS :: "(string \<times> string) list" where
  "REPLACEMENTS =
    [(SQ # ''@platform/core'' @ [SQ], SQ # ''@/lib/core'' @ [SQ]),
     (DQ # ''@platform/core'' @ [DQ], DQ # ''@/lib/core'' @ [DQ]),
     (SQ # ''@platform/ui-kit'' @ [SQ], SQ # ''@super-platform/ui'' @ [SQ]),
     (DQ # ''@platform/ui-kit'' @ [DQ], DQ # ''@super-platform/ui'' @ [DQ]),
     (SQ # ''@platform/ui'' @ [SQ], SQ # ''@super-platform/ui-base'' @ [SQ]),
     (DQ # ''@platform/ui'' @ [DQ], DQ # ''@super-platform/ui-base'' @ [DQ]),
     (SQ # ''@platform/firebase'' @ [SQ], SQ # ''@/lib/firebase'' @ [SQ]),
     (DQ # ''@platform/firebase'' @ [DQ], DQ # ''@/lib/firebase'' @ [DQ]),
     (SQ # ''@platform/firebase-admin'' @ [SQ], SQ # ''@/lib/firebase-admin'' @ [SQ]),
     (DQ # ''@platform/firebase-admin'' @ [DQ], DQ # ''@/lib/firebase-admin'' @ [DQ]),
     (SQ # ''@platform/types'' @ [SQ], SQ # ''@/lib/types'' @ [SQ]),
     (DQ # ''@platform/types'' @ [DQ], DQ # ''@/lib/types'' @ [DQ]),
     (SQ # ''@modules/'', SQ # ''@/modules/''),
     (DQ # ''@modules/'', DQ # ''@/modules/'')]"

text \<open>
  The loop of \<open>update_file\<close> over the table:
  \<^verbatim>\<open>for old, new in REPLACEMENTS.items(): new_content = new_content.replace(old, new)\<close>
\<close>

fun apply_rules :: "(string \<times> string) list \<Rightarrow> string \<Rightarrow> string" where
  "apply_rules [] s = s"
| "apply_rules ((old, new) # rules) s = apply_rules rules (str_replace old new s)"

definition new_content_of :: "string \<Rightarrow> string" where
  "new_content_of content = apply_rules REPLACEMENTS content"

section \<open>Files, the process and the traversal\<close>

type_synonym path = string

text \<open>
  What the script can observe of a file: the text that reading it returns, whether reading
  raises (with the message of the exception), and whether writing raises (with the message
  and the text the failed write leaves in the file).
\<close>

record file_state =
  data :: string
  rfail :: "string option"
  wfail :: "(string \<times> string) option"

datatype event = OpenRead path | OpenWrite path | Print string

text \<open>
  The state of the process: the files, the standard output and the events so far.
  \<open>stdout w tr s = Some e\<close> says that, with the events \<open>tr\<close> behind it, \<open>print(s)\<close>
  raises an exception with the message \<open>e\<close> (a path that the encoding of the output
  cannot represent, a closed pipe) and prints nothing.
\<close>

record world =
  files :: "path \<Rightarrow> file_state"
  stdout :: "event list \<Rightarrow> string \<Rightarrow> string option"
  trace :: "event list"

definition emit :: "event list \<Rightarrow> world \<Rightarrow> world" where
  "emit es w = w\<lparr>trace := trace w @ es\<rparr>"

text \<open>\<open>print(s)\<close>: the line is printed, or an exception is raised (\<open>Inl\<close>).\<close>

definition print_line :: "string \<Rightarrow> world \<Rightarrow> string + world" where
  "print_line s w =
     (case stdout w (trace w) s of
        Some e \<Rightarrow> Inl e
      | None \<Rightarrow> Inr (emit [Print s] w))"

text \<open>
  How a piece of the script ends: it completes, or an exception that nothing catches leaves
  it; both with the state reached.
\<close>

datatype outcome = Completed world | Aborted string world

text \<open>
  The handler \<open>except Exception as e: print(f"Error reading {filepath}: {e}")\<close>. Its
  \<open>print\<close> is outside every \<open>try\<close>: an exception that it raises leaves \<open>update_file\<close>.
\<close>

definition except_handler :: "path \<Rightarrow> string \<Rightarrow> world \<Rightarrow> outcome" where
  "except_handler filepath e w =
     (case print_line (''Error reading '' @ filepath @ '': '' @ e) w of
        Inl e' \<Rightarrow> Aborted e' w
      | Inr w' \<Rightarrow> Completed w')"

text \<open>
  \<open>update_file\<close>: the whole body is inside \<open>try\<close>, so the handler gets a failure of the
  read, of the write and of \<open>print(f"Updated: {filepath}")\<close> alike.
\<close>

definition update_file :: "path \<Rightarrow> world \<Rightarrow> outcome" where
  "update_file filepath w =
     (let f = files w filepath; w1 = emit [OpenRead filepath] w in
      case rfail f of
        Some msg \<Rightarrow> except_handler filepath msg w1
      | None \<Rightarrow>
          (let content = data f; new_content = new_content_of content in
           if content \<noteq> new_content then
             (case wfail f of
                Some (msg, residue) \<Rightarrow>
                  except_handler filepath msg
                    (emit [OpenWrite filepath]
                       (w1\<lparr>files := (files w1)(filepath := f\<lparr>data := residue\<rparr>)\<rparr>))
              | None \<Rightarrow>
                  (let w2 = emit [OpenWrite filepath]
                              (w1\<lparr>files := (files w1)(filepath := f\<lparr>data := new_content\<rparr>)\<rparr>)
                   in case print_line (''Updated: '' @ filepath) w2 of
                        Inl e \<Rightarrow> except_handler filepath e w2
                      | Inr w3 \<Rightarrow> Completed w3))
           else Completed w1))"

text \<open>
  The directory tree that \<open>os.walk\<close> enumerates. Listing a directory can fail; \<open>os.walk\<close>
  is called without \<open>onerror\<close>, so a directory whose listing fails (also a root that does
  not exist or is not a directory) yields nothing and the walk goes on.
\<close>

datatype entry = FileEntry | DirEntry "(string \<times> entry) list" | Unlistable

fun is_dir :: "entry \<Rightarrow> bool" where
  "is_dir FileEntry = False"
| "is_dir (DirEntry es) = True"
| "is_dir Unlistable = True"

text \<open>\<open>os.path.join\<close> of two components on POSIX.\<close>

definition path_join :: "path \<Rightarrow> string \<Rightarrow> path" where
  "path_join a b =
     (if prefix ''/'' b then b
      else if a = [] \<or> suffix ''/'' a then a @ b
      else a @ ''/'' @ b)"

text \<open>
  \<open>os.walk(top)\<close>, top-down: the list of triples \<open>(root, dirs, files)\<close> it yields. The
  loop of the script never changes \<open>dirs\<close>, so the walk goes into every directory.
\<close>

fun walk :: "path \<Rightarrow> entry \<Rightarrow> (path \<times> string list \<times> string list) list" where
  "walk t FileEntry = []"
| "walk t Unlistable = []"
| "walk t (DirEntry es) =
     (t, map fst (filter (\<lambda>(n, e). is_dir e) es), map fst (filter (\<lambda>(n, e). \<not> is_dir e) es))
     # concat (map (\<lambda>(n, e). if is_dir e then walk (path_join t n) e else []) es)"

definition ROOT_DIR :: path where
  "ROOT_DIR = ''/Users/jukkritsuwannakum/Super-Platform''"

definition skip_root :: "path \<Rightarrow> bool" where
  "skip_root root \<longleftrightarrow>
     sublist ''node_modules'' root \<or> sublist ''.git'' root \<or> sublist ''.next'' root"

definition has_extension :: "string \<Rightarrow> bool" where
  "has_extension file \<longleftrightarrow>
     suffix ''.ts'' file \<or> suffix ''.tsx'' file \<or> suffix ''.js'' file \<or>
     suffix ''.jsx'' file \<or> suffix ''.json'' file"

text \<open>The inner loop \<open>for file in files\<close>; an exception that leaves \<open>update_file\<close> ends it.\<close>

fun files_loop :: "path \<Rightarrow> string list \<Rightarrow> world \<Rightarrow> outcome" where
  "files_loop root [] w = Completed w"
| "files_loop root (file # rest) w =
     (if has_extension file then
        (if file = ''package.json'' \<or> file = ''package-lock.json'' then files_loop root rest w
         else (case update_file (path_join root file) w of
                 Completed w' \<Rightarrow> files_loop root rest w'
               | Aborted e w' \<Rightarrow> Aborted e w'))
      else files_loop root rest w)"

text \<open>The outer loop \<open>for root, dirs, files in os.walk(ROOT_DIR)\<close>.\<close>

fun walk_loop :: "(path \<times> string list \<times> string list) list \<Rightarrow> world \<Rightarrow> outcome" where
  "walk_loop [] w = Completed w"
| "walk_loop ((root, dirs, fs) # rest) w =
     (if skip_root root then walk_loop rest w
      else (case files_loop root fs w of
              Completed w' \<Rightarrow> walk_loop rest w'
            | Aborted e w' \<Rightarrow> Aborted e w'))"

text \<open>
  The whole script, started on a directory tree, the files and a standard output. It has
  no statement that ends it early and \<open>os.walk\<close> lets no error of the file system escape:
  the run is aborted only by an exception that leaves \<open>update_file\<close>.
\<close>

definition run ::
  "entry \<Rightarrow> (path \<Rightarrow> file_state) \<Rightarrow> (event list \<Rightarrow> string \<Rightarrow> string option) \<Rightarrow> outcome" where
  "run tree fs out = walk_loop (walk ROOT_DIR tree) \<lparr>files = fs, stdout = out, trace = []\<rparr>"

section \<open>Vocabulary of the properties\<close>

text \<open>The state in which a piece of the script ends, completed or aborted.\<close>

fun final :: "outcome \<Rightarrow> world" where
  "final (Completed w) = w"
| "final (Aborted e w) = w"

text \<open>
  A file name passes the two tests of the inner loop: one of the five extensions, and
  neither of the two skipped names.
\<close>

definition eligible :: "string \<Rightarrow> bool" where
  "eligible file \<longleftrightarrow>
     has_extension file \<and> \<not> (file = ''package.json'' \<or> file = ''package-lock.json'')"

text \<open>The paths on which the two loops call \<open>update_file\<close>, in the order of the calls.\<close>

fun selected :: "(path \<times> string list \<times> string list) list \<Rightarrow> path list" where
  "selected [] = []"
| "selected ((root, dirs, fs) # rest) =
     (if skip_root root then [] else map (path_join root) (filter eligible fs)) @ selected rest"

text \<open>\<open>update_file\<close> called on the paths of a list, up to the first exception that leaves it.\<close>

fun calls :: "path list \<Rightarrow> world \<Rightarrow> outcome" where
  "calls [] w = Completed w"
| "calls (p # ps) w =
     (case update_file p w of
        Completed w' \<Rightarrow> calls ps w'
      | Aborted e w' \<Rightarrow> Aborted e w')"

text \<open>A path the run has left alone: same file state, never opened.\<close>

definition untouched :: "path \<Rightarrow> (path \<Rightarrow> file_state) \<Rightarrow> world \<Rightarrow> bool" where
  "untouched p fs w \<longleftrightarrow>
     files w p = fs p \<and> OpenRead p \<notin> set (trace w) \<and> OpenWrite p \<notin> set (trace w)"

text \<open>A standard output on which every line of the handler can be printed.\<close>

definition prints_errors :: "(event list \<Rightarrow> string \<Rightarrow> string option) \<Rightarrow> bool" where
  "prints_errors out \<longleftrightarrow> (\<forall>tr p e. out tr (''Error reading '' @ p @ '': '' @ e) = None)"

text \<open>The names of a file system: not empty, without a slash.\<close>

fun valid_tree :: "entry \<Rightarrow> bool" where
  "valid_tree FileEntry = True"
| "valid_tree Unlistable = True"
| "valid_tree (DirEntry es) =
     (\<forall>(n, e) \<in> set es. n \<noteq> [] \<and> CHR ''/'' \<notin> set n \<and> valid_tree e)"

definition plain_dir :: "path \<Rightarrow> bool" where
  "plain_dir t \<longleftrightarrow> t \<noteq> [] \<and> \<not> suffix ''/'' t"

text \<open>The components of a path, cut at the slashes.\<close>

fun components :: "path \<Rightarrow> string list" where
  "components [] = [[]]"
| "components (c # cs) =
     (if c = CHR ''/'' then [] # components cs
      else (case components cs of [] \<Rightarrow> [[c]] | x # xs \<Rightarrow> (c # x) # xs))"

text \<open>
  A small tree, its files and three standard outputs, for the concrete instances: one
  that prints every line, one that is closed, and one that cannot print \<open>Updated\<close> lines.
\<close>

definition sample_import :: string where
  "sample_import = ''import x from '' @ DQ # ''@platform/core'' @ [DQ]"

definition example_tree :: entry where
  "example_tree = DirEntry
     [(''src'', DirEntry [(''a.ts'', FileEntry), (''b.tsx'', FileEntry), (''c.js'', FileEntry),
                          (''d.jsx'', FileEntry), (''notes.md'', FileEntry),
                          (''package.json'', FileEntry)]),
      (''node_modules'', DirEntry [(''pkg'', DirEntry [(''index.js'', FileEntry)])]),
      (''.github'', DirEntry [(''ci.json'', FileEntry)]),
      (''locked'', Unlistable)]"

definition example_files :: "path \<Rightarrow> file_state" where
  "example_files p =
     \<lparr>data = (if p = ''/Users/jukkritsuwannakum/Super-Platform/src/b.tsx''
              then ''export const a = 1;''
              else sample_import),
      rfail = (if p = ''/Users/jukkritsuwannakum/Super-Platform/src/a.ts''
               then Some ''Permission denied'' else None),
      wfail = (if p = ''/Users/jukkritsuwannakum/Super-Platform/src/d.jsx''
               then Some (''No space left on device'', []) else None)\<rparr>"

definition stdout_open :: "event list \<Rightarrow> string \<Rightarrow> string option" where
  "stdout_open tr s = None"

definition stdout_closed :: "event list \<Rightarrow> string \<Rightarrow> string option" where
  "stdout_closed tr s = Some ''Broken pipe''"

definition stdout_no_updates :: "event list \<Rightarrow> string \<Rightarrow> string option" where
  "stdout_no_updates tr s = (if prefix ''Updated: '' s then Some ''cannot encode'' else None)"

text \<open>A file that the table leaves as it is and that nothing has written or reported.\<close>

definition quiet :: "path \<Rightarrow> world \<Rightarrow> bool" where
  "quiet p w \<longleftrightarrow>
     new_content_of (data (files w p)) = data (files w p) \<and>
     OpenWrite p \<notin> set (trace w) \<and> Print (''Updated: '' @ p) \<notin> set (trace w)"

section \<open>The text cut at its quotes\<close>

text \<open>
  Every pattern of the table starts with a quote character and has no other quote except,
  for the twelve terminated patterns, its last character. So what the table does to a text
  is read off the text cut at its quote characters: \<open>toks s = (u, ts)\<close> gives the
  characters \<open>u\<close> before the first quote and, for every quote of \<open>s\<close>, the token of that
  quote and of the characters up to the next quote.
\<close>

definition is_quote :: "char \<Rightarrow> bool" where
  "is_quote c \<longleftrightarrow> c = SQ \<or> c = DQ"

definition plain :: "string \<Rightarrow> bool" where
  "plain w \<longleftrightarrow> (\<forall>c \<in> set w. \<not> is_quote c)"

type_synonym token = "char \<times> string"

fun toks :: "string \<Rightarrow> string \<times> token list" where
  "toks [] = ([], [])"
| "toks (c # cs) =
     (case toks cs of (u, ts) \<Rightarrow> if is_quote c then ([], (c, u) # ts) else (c # u, ts))"

definition spell :: "token list \<Rightarrow> string" where
  "spell ts = concat (map (\<lambda>(q, w). q # w) ts)"

definition well_cut :: "token list \<Rightarrow> bool" where
  "well_cut ts \<longleftrightarrow> (\<forall>(q, w) \<in> set ts. is_quote q \<and> plain w)"

text \<open>
  The two shapes of the rules of the table: \<open>Exact q w w'\<close> replaces the word \<open>w\<close>
  between two quotes \<open>q\<close> with \<open>w'\<close>; \<open>Starts q w w'\<close> replaces \<open>w\<close> behind a quote
  \<open>q\<close> with \<open>w'\<close>, whatever follows.
\<close>

datatype trule = Exact char string string | Starts char string string

fun encode :: "trule \<Rightarrow> string \<times> string" where
  "encode (Exact q w w') = (q # w @ [q], q # w' @ [q])"
| "encode (Starts q w w') = (q # w, q # w')"

text \<open>
  One replacement on the tokens. A terminated pattern takes the quote of the next token as
  its closing quote, and the scan goes on behind that quote: the next token cannot start
  another occurrence.
\<close>

fun rep_exact :: "char \<Rightarrow> string \<Rightarrow> string \<Rightarrow> token list \<Rightarrow> token list" where
  "rep_exact q w w' ((q1, w1) # (q2, w2) # ts) =
     (if q1 = q \<and> w1 = w \<and> q2 = q then (q, w') # (q2, w2) # rep_exact q w w' ts
      else (q1, w1) # rep_exact q w w' ((q2, w2) # ts))"
| "rep_exact q w w' [] = []"
| "rep_exact q w w' [t] = [t]"

fun rep_starts :: "char \<Rightarrow> string \<Rightarrow> string \<Rightarrow> token \<Rightarrow> token" where
  "rep_starts q w w' (q1, w1) =
     (if q1 = q \<and> prefix w w1 then (q, w' @ drop (length w) w1) else (q1, w1))"

fun tok_step :: "trule \<Rightarrow> token list \<Rightarrow> token list" where
  "tok_step (Exact q w w') ts = rep_exact q w w' ts"
| "tok_step (Starts q w w') ts = map (rep_starts q w w') ts"

fun tok_steps :: "trule list \<Rightarrow> token list \<Rightarrow> token list" where
  "tok_steps [] ts = ts"
| "tok_steps (r # rs) ts = tok_steps rs (tok_step r ts)"

text \<open>The token at \<open>i\<close> is followed by a token with the same quote.\<close>

definition closes :: "token list \<Rightarrow> nat \<Rightarrow> bool" where
  "closes ts i \<longleftrightarrow> Suc i < length ts \<and> fst (ts ! Suc i) = fst (ts ! i)"

text \<open>
  No occurrence of the terminated pattern \<open>q w q\<close> is followed at once by a second one
  that takes the closing quote of the first as its opening quote.
\<close>

definition no_double :: "char \<Rightarrow> string \<Rightarrow> token list \<Rightarrow> bool" where
  "no_double q w ts \<longleftrightarrow>
     \<not> (\<exists>j. Suc (Suc j) < length ts \<and> ts ! j = (q, w) \<and> ts ! Suc j = (q, w) \<and>
            fst (ts ! Suc (Suc j)) = q)"

fun rule_no_double :: "trule \<Rightarrow> token list \<Rightarrow> bool" where
  "rule_no_double (Exact q w w') ts = no_double q w ts"
| "rule_no_double (Starts q w w') ts = True"

text \<open>
  A rule on one token: whether it applies (\<open>c\<close> says that the next token has the same
  quote) and what it makes of the token; a list of rules, one after the other.
\<close>

fun fires :: "trule \<Rightarrow> bool \<Rightarrow> token \<Rightarrow> bool" where
  "fires (Exact q w w') c (q1, w1) \<longleftrightarrow> q1 = q \<and> w1 = w \<and> c"
| "fires (Starts q w w') c (q1, w1) \<longleftrightarrow> q1 = q \<and> prefix w w1"

fun rewrite1 :: "trule \<Rightarrow> token \<Rightarrow> token" where
  "rewrite1 (Exact q w w') (q1, w1) = (q1, w')"
| "rewrite1 (Starts q w w') (q1, w1) = (q1, w' @ drop (length w) w1)"

definition step1 :: "trule \<Rightarrow> bool \<Rightarrow> token \<Rightarrow> token" where
  "step1 r c t = (if fires r c t then rewrite1 r t else t)"

fun run1 :: "trule list \<Rightarrow> bool \<Rightarrow> token \<Rightarrow> token" where
  "run1 [] c t = t"
| "run1 (r # rs) c t = run1 rs c (step1 r c t)"

text \<open>No rule of the list applies to the token; no rule applies to what a rule has written.\<close>

definition settled :: "trule list \<Rightarrow> bool \<Rightarrow> token \<Rightarrow> bool" where
  "settled rs c t \<longleftrightarrow> (\<forall>r \<in> set rs. \<not> fires r c t)"

definition stable :: "trule list \<Rightarrow> bool" where
  "stable rs \<longleftrightarrow> (\<forall>r \<in> set rs. \<forall>c t. fires r c t \<longrightarrow> settled rs c (rewrite1 r t))"

text \<open>The table of the script in the two shapes, in its order.\<close>

definition TOKEN_RULES :: "trule list" where
  "TOKEN_RULES =
    [Exact SQ ''@platform/core'' ''@/lib/core'',
     Exact DQ ''@platform/core'' ''@/lib/core'',
     Exact SQ ''@platform/ui-kit'' ''@super-platform/ui'',
     Exact DQ ''@platform/ui-kit'' ''@super-platform/ui'',
     Exact SQ ''@platform/ui'' ''@super-platform/ui-base'',
     Exact DQ ''@platform/ui'' ''@super-platform/ui-base'',
     Exact SQ ''@platform/firebase'' ''@/lib/firebase'',
     Exact DQ ''@platform/firebase'' ''@/lib/firebase'',
     Exact SQ ''@platform/firebase-admin'' ''@/lib/firebase-admin'',
     Exact DQ ''@platform/firebase-admin'' ''@/lib/firebase-admin'',
     Exact SQ ''@platform/types'' ''@/lib/types'',
     Exact DQ ''@platform/types'' ''@/lib/types'',
     Starts SQ ''@modules/'' ''@/modules/'',
     Starts DQ ''@modules/'' ''@/modules/'']"

fun good_rule :: "trule \<Rightarrow> bool" where
  "good_rule (Exact q w w') \<longleftrightarrow> is_quote q \<and> plain w \<and> plain w'"
| "good_rule (Starts q w w') \<longleftrightarrow> is_quote q \<and> plain w \<and> plain w'"

text \<open>
  A text in which no terminated pattern of the table occurs twice in a row with the closing
  quote of the first occurrence as the opening quote of the second, as in
  \<open>'@platform/core'@platform/core'\<close>.
\<close>

definition overlap_free :: "string \<Rightarrow> bool" where
  "overlap_free s \<longleftrightarrow>
     (\<forall>(old, new) \<in> set REPLACEMENTS. hd old = last old \<longrightarrow> \<not> sublist (old @ tl old) s)"

text \<open>Two sample texts.\<close>

definition ui_lines :: string where
  "ui_lines = ''import { B } from '' @ SQ # ''@platform/ui'' @ SQ # '';'' @ CHR 0x0A #
              ''import { K } from '' @ SQ # ''@platform/ui-kit'' @ SQ # '';'' @ [CHR 0x0A]"

definition modules_line :: string where
  "modules_line = ''import { A } from '' @ DQ # ''@modules/auth/login'' @ DQ # '';''"

section \<open>Literal replacement\<close>

lemma prefix_short: "prefix xs (ys @ zs) \<Longrightarrow> length xs \<le> length ys \<Longrightarrow> prefix xs ys"
  by (rule prefix_length_prefix[of xs "ys @ zs" ys]) auto

lemma str_replace_absent: "\<not> sublist old s \<Longrightarrow> str_replace old new s = s"
  by (induction s) (auto simp: sublist_Cons_right)

lemma str_replace_leftmost:
  assumes "old \<noteq> []" "\<not> sublist old (a @ butlast old)"
  shows "str_replace old new (a @ old @ b) = a @ new @ str_replace old new b"
  using assms
proof (induction a)
  case Nil
  then show ?case by (cases old) auto
next
  case (Cons x a)
  have np: "\<not> prefix old (x # a @ butlast old)" and ns: "\<not> sublist old (a @ butlast old)"
    using Cons.prems(2) by (auto simp: sublist_Cons_right)
  have "\<not> prefix old (x # a @ old @ b)"
  proof
    assume p: "prefix old (x # a @ old @ b)"
    have "x # a @ old @ b = (x # a @ butlast old) @ (last old # b)"
      using Cons.prems(1) by simp
    with p have "prefix old ((x # a @ butlast old) @ (last old # b))" by simp
    moreover have "length old \<le> length (x # a @ butlast old)"
      using Cons.prems(1) by (cases old) auto
    ultimately have "prefix old (x # a @ butlast old)" by (rule prefix_short)
    with np show False by simp
  qed
  then show ?case using Cons ns by simp
qed

lemma apply_rules_absent:
  "(\<forall>(old, new) \<in> set rules. \<not> sublist old s) \<Longrightarrow> apply_rules rules s = s"
  by (induction rules) (auto simp: str_replace_absent)

section \<open>Effects of \<open>update_file\<close> and of the two loops\<close>

lemmas update_file_unfold =
  update_file_def except_handler_def print_line_def emit_def Let_def

lemma update_file_other: "q \<noteq> p \<Longrightarrow> files (final (update_file p w)) q = files w q"
  by (simp add: update_file_unfold split: option.splits prod.splits)

lemma update_file_stdout: "stdout (final (update_file p w)) = stdout w"
  by (simp add: update_file_unfold split: option.splits prod.splits)

lemma update_file_fails:
  "rfail (files (final (update_file p w)) q) = rfail (files w q) \<and>
   wfail (files (final (update_file p w)) q) = wfail (files w q)"
  by (simp add: update_file_unfold split: option.splits prod.splits)

lemma update_file_trace_mono: "set (trace w) \<subseteq> set (trace (final (update_file p w)))"
  by (auto simp add: update_file_unfold split: option.splits prod.splits)

lemma update_file_opens: "OpenRead p \<in> set (trace (final (update_file p w)))"
  by (simp add: update_file_unfold split: option.splits prod.splits)

lemma update_file_read_other:
  "q \<noteq> p \<Longrightarrow>
   OpenRead q \<in> set (trace (final (update_file p w))) \<longleftrightarrow> OpenRead q \<in> set (trace w)"
  by (simp add: update_file_unfold split: option.splits prod.splits)

lemma update_file_write_other:
  "q \<noteq> p \<Longrightarrow>
   OpenWrite q \<in> set (trace (final (update_file p w))) \<longleftrightarrow> OpenWrite q \<in> set (trace w)"
  by (simp add: update_file_unfold split: option.splits prod.splits)

lemma update_file_read_error:
  "rfail (files w p) = Some msg \<Longrightarrow>
   stdout w (trace w @ [OpenRead p]) (''Error reading '' @ p @ '': '' @ msg) = None \<Longrightarrow>
   update_file p w = Completed (emit [OpenRead p, Print (''Error reading '' @ p @ '': '' @ msg)] w)"
  by (simp add: update_file_unfold)

lemma update_file_write_error:
  "rfail (files w p) = None \<Longrightarrow> wfail (files w p) = Some (msg, residue) \<Longrightarrow>
   new_content_of (data (files w p)) \<noteq> data (files w p) \<Longrightarrow>
   stdout w (trace w @ [OpenRead p, OpenWrite p]) (''Error reading '' @ p @ '': '' @ msg) = None \<Longrightarrow>
   update_file p w =
     Completed (emit [OpenRead p, OpenWrite p, Print (''Error reading '' @ p @ '': '' @ msg)]
       (w\<lparr>files := (files w)(p := (files w p)\<lparr>data := residue\<rparr>)\<rparr>))"
  by (simp add: update_file_unfold)

lemma update_file_unchanged:
  "rfail (files w p) = None \<Longrightarrow> new_content_of (data (files w p)) = data (files w p) \<Longrightarrow>
   update_file p w = Completed (emit [OpenRead p] w)"
  by (simp add: update_file_def Let_def)

lemma update_file_changed:
  "rfail (files w p) = None \<Longrightarrow> wfail (files w p) = None \<Longrightarrow>
   new_content_of (data (files w p)) \<noteq> data (files w p) \<Longrightarrow>
   stdout w (trace w @ [OpenRead p, OpenWrite p]) (''Updated: '' @ p) = None \<Longrightarrow>
   update_file p w =
     Completed (emit [OpenRead p, OpenWrite p, Print (''Updated: '' @ p)]
       (w\<lparr>files := (files w)(p := (files w p)\<lparr>data := new_content_of (data (files w p))\<rparr>)\<rparr>))"
  by (simp add: update_file_unfold)

lemma update_file_written:
  "rfail (files w p) = None \<Longrightarrow> wfail (files w p) = None \<Longrightarrow>
   new_content_of (data (files w p)) \<noteq> data (files w p) \<Longrightarrow>
   data (files (final (update_file p w)) p) = new_content_of (data (files w p)) \<and>
   OpenWrite p \<in> set (trace (final (update_file p w)))"
  by (simp add: update_file_unfold split: option.splits)

lemma update_file_returns:
  "prints_errors (stdout w) \<Longrightarrow> \<exists>w'. update_file p w = Completed w'"
  by (simp add: update_file_unfold prints_errors_def split: option.splits prod.splits)

lemma update_file_aborts:
  "update_file p w = Aborted e w' \<Longrightarrow>
   \<exists>m. stdout w (trace w') (''Error reading '' @ p @ '': '' @ m) = Some e"
  by (auto simp add: update_file_unfold split: option.splits prod.splits if_splits)

lemma update_file_read_error_line:
  "rfail (files w p) = Some msg \<Longrightarrow> prints_errors (stdout w) \<Longrightarrow>
   Print (''Error reading '' @ p @ '': '' @ msg) \<in> set (trace (final (update_file p w)))"
  by (simp add: update_file_unfold prints_errors_def)

lemma update_file_write_error_line:
  "rfail (files w p) = None \<Longrightarrow> wfail (files w p) = Some (msg, residue) \<Longrightarrow>
   new_content_of (data (files w p)) \<noteq> data (files w p) \<Longrightarrow> prints_errors (stdout w) \<Longrightarrow>
   Print (''Error reading '' @ p @ '': '' @ msg) \<in> set (trace (final (update_file p w)))"
  by (simp add: update_file_unfold prints_errors_def)

lemma update_file_quiet:
  "quiet p w \<Longrightarrow>
   quiet p (final (update_file q w)) \<and> files (final (update_file q w)) p = files w p"
  by (auto simp: quiet_def update_file_unfold split: option.splits prod.splits)

text \<open>The two loops together call \<open>update_file\<close> on the selected paths, one after the other.\<close>

lemma calls_append:
  "calls (ps @ qs) w =
     (case calls ps w of Completed w' \<Rightarrow> calls qs w' | Aborted e w' \<Rightarrow> Aborted e w')"
  by (induction ps arbitrary: w) (auto split: outcome.splits)

lemma files_loop_calls:
  "files_loop root fl w = calls (map (path_join root) (filter eligible fl)) w"
  by (induction fl arbitrary: w) (auto simp: eligible_def split: outcome.splits)

lemma walk_loop_calls: "walk_loop ts w = calls (selected ts) w"
proof (induction ts arbitrary: w)
  case Nil
  show ?case by simp
next
  case (Cons t ts)
  obtain root dirs fl where t: "t = (root, dirs, fl)" by (cases t) auto
  show ?case
    unfolding t by (simp add: Cons.IH files_loop_calls calls_append split: outcome.splits)
qed

lemma run_calls:
  "run tree fs out = calls (selected (walk ROOT_DIR tree)) \<lparr>files = fs, stdout = out, trace = []\<rparr>"
  by (simp add: run_def walk_loop_calls)

lemma calls_step:
  "final (calls (p # ps) w) = final (update_file p w) \<or>
   final (calls (p # ps) w) = final (calls ps (final (update_file p w)))"
  by (cases "update_file p w") simp_all

lemma selected_iff:
  "p \<in> set (selected ts) \<longleftrightarrow>
   (\<exists>root dirs fl f. (root, dirs, fl) \<in> set ts \<and> \<not> skip_root root \<and> f \<in> set fl \<and>
      eligible f \<and> p = path_join root f)"
proof (induction ts)
  case Nil
  show ?case by simp
next
  case (Cons t ts)
  obtain root dirs fl where t: "t = (root, dirs, fl)" by (cases t) auto
  show ?case unfolding t by (simp add: Cons.IH image_iff) blast
qed

lemma calls_other:
  "p \<notin> set ps \<Longrightarrow>
   files (final (calls ps w)) p = files w p \<and>
   (OpenRead p \<in> set (trace (final (calls ps w))) \<longleftrightarrow> OpenRead p \<in> set (trace w)) \<and>
   (OpenWrite p \<in> set (trace (final (calls ps w))) \<longleftrightarrow> OpenWrite p \<in> set (trace w))"
proof (induction ps arbitrary: w)
  case Nil
  show ?case by simp
next
  case (Cons q ps)
  have ne: "p \<noteq> q" and nin: "p \<notin> set ps" using Cons.prems by auto
  note one = update_file_other[OF ne, of w] update_file_read_other[OF ne, of w]
    update_file_write_other[OF ne, of w]
  from calls_step[of q ps w] show ?case
  proof
    assume "final (calls (q # ps) w) = final (update_file q w)"
    then show ?thesis using one by simp
  next
    assume "final (calls (q # ps) w) = final (calls ps (final (update_file q w)))"
    then show ?thesis using Cons.IH[OF nin, of "final (update_file q w)"] one by simp
  qed
qed

lemma calls_quiet:
  "quiet p w \<Longrightarrow> quiet p (final (calls ps w)) \<and> files (final (calls ps w)) p = files w p"
proof (induction ps arbitrary: w)
  case Nil
  then show ?case by simp
next
  case (Cons q ps)
  note one = update_file_quiet[OF Cons.prems, of q]
  from calls_step[of q ps w] show ?case
  proof
    assume "final (calls (q # ps) w) = final (update_file q w)"
    then show ?thesis using one by simp
  next
    assume "final (calls (q # ps) w) = final (calls ps (final (update_file q w)))"
    then show ?thesis using Cons.IH[of "final (update_file q w)"] one by simp
  qed
qed

lemma calls_trace_mono: "set (trace w) \<subseteq> set (trace (final (calls ps w)))"
proof (induction ps arbitrary: w)
  case Nil
  show ?case by simp
next
  case (Cons q ps)
  note one = update_file_trace_mono[of w q]
  from calls_step[of q ps w] show ?case
  proof
    assume "final (calls (q # ps) w) = final (update_file q w)"
    then show ?thesis using one by simp
  next
    assume "final (calls (q # ps) w) = final (calls ps (final (update_file q w)))"
    then show ?thesis using Cons.IH[of "final (update_file q w)"] one by auto
  qed
qed

text \<open>When every line of the handler can be printed, no call is left by an exception.\<close>

lemma calls_complete:
  "prints_errors (stdout w) \<Longrightarrow> \<exists>w'. calls ps w = Completed w'"
proof (induction ps arbitrary: w)
  case Nil
  show ?case by simp
next
  case (Cons q ps)
  obtain w1 where w1: "update_file q w = Completed w1"
    using update_file_returns[OF Cons.prems] by blast
  have "stdout w1 = stdout w" using update_file_stdout[of q w] w1 by simp
  then show ?case using Cons.IH[of w1] Cons.prems w1 by simp
qed

lemma calls_each:
  assumes "prints_errors (stdout w)" "p \<in> set ps"
  shows "\<exists>w1 w2. files w1 p = files w p \<and> stdout w1 = stdout w \<and>
           update_file p w1 = Completed w2 \<and>
           set (trace w2) \<subseteq> set (trace (final (calls ps w)))"
  using assms
proof (induction ps arbitrary: w)
  case Nil
  then show ?case by simp
next
  case (Cons q ps)
  obtain w1 where w1: "update_file q w = Completed w1"
    using update_file_returns[OF Cons.prems(1)] by blast
  have so: "stdout w1 = stdout w" using update_file_stdout[of q w] w1 by simp
  have fin: "final (calls (q # ps) w) = final (calls ps w1)" using w1 by simp
  show ?case
  proof (cases "p = q")
    case True
    have "set (trace w1) \<subseteq> set (trace (final (calls ps w1)))" by (rule calls_trace_mono)
    then show ?thesis using w1 True fin by auto
  next
    case False
    then have in_ps: "p \<in> set ps" using Cons.prems(2) by simp
    have pe: "prints_errors (stdout w1)" using so Cons.prems(1) by simp
    have same: "files w1 p = files w p" using update_file_other[of p q w] False w1 by simp
    from Cons.IH[OF pe in_ps] obtain v1 v2 where
      "files v1 p = files w1 p" "stdout v1 = stdout w1" "update_file p v1 = Completed v2"
      "set (trace v2) \<subseteq> set (trace (final (calls ps w1)))"
      by blast
    then show ?thesis using same so fin by auto
  qed
qed

section \<open>The paths of the walk\<close>

lemma suffix_single: "suffix [c] x \<longleftrightarrow> x \<noteq> [] \<and> last x = c"
  by (cases x rule: rev_cases) (auto simp: suffix_def)

lemma plain_dir_join:
  "plain_dir t \<Longrightarrow> n \<noteq> [] \<Longrightarrow> CHR ''/'' \<notin> set n \<Longrightarrow> path_join t n = t @ ''/'' @ n"
  by (cases n) (auto simp: path_join_def plain_dir_def)

lemma plain_dir_step:
  assumes "plain_dir t" "n \<noteq> []" "CHR ''/'' \<notin> set n"
  shows "plain_dir (path_join t n)"
proof -
  have "last n \<in> set n" using assms(2) by simp
  then have "last n \<noteq> CHR ''/''" using assms(3) by auto
  then show ?thesis
    using assms by (simp add: plain_dir_join) (simp add: plain_dir_def suffix_single)
qed

lemma walk_valid:
  "valid_tree tree \<Longrightarrow> plain_dir t \<Longrightarrow> (root, dirs, fl) \<in> set (walk t tree) \<Longrightarrow>
   plain_dir root \<and> (\<forall>f \<in> set fl. f \<noteq> [] \<and> CHR ''/'' \<notin> set f)"
proof (induction t tree arbitrary: root dirs fl rule: walk.induct)
  case (3 t es)
  from "3.prems"(3) consider
    (here) "root = t" "fl = map fst (filter (\<lambda>(n, e). \<not> is_dir e) es)"
  | (below) n e where "(n, e) \<in> set es" "is_dir e" "(root, dirs, fl) \<in> set (walk (path_join t n) e)"
    by (auto split: if_splits)
  then show ?case
  proof cases
    case here
    then show ?thesis using "3.prems"(1,2) by fastforce
  next
    case below
    have v: "n \<noteq> []" "CHR ''/'' \<notin> set n" "valid_tree e"
      using "3.prems"(1) below(1) by auto
    show ?thesis
      by (rule "3.IH"[OF below(1) _ below(2) v(3) plain_dir_step[OF "3.prems"(2) v(1,2)] below(3)])
         simp
  qed
qed simp_all

lemma join_inj:
  assumes "a @ ''/'' @ b = a' @ ''/'' @ b'" "CHR ''/'' \<notin> set b" "CHR ''/'' \<notin> set b'"
  shows "a = a' \<and> b = b'"
proof -
  have "takeWhile (\<lambda>c. c \<noteq> CHR ''/'') (rev (a @ ''/'' @ b)) = rev b"
    using assms(2) by (auto simp add: takeWhile_tail)
  moreover have "takeWhile (\<lambda>c. c \<noteq> CHR ''/'') (rev (a' @ ''/'' @ b')) = rev b'"
    using assms(3) by (auto simp add: takeWhile_tail)
  ultimately have "b = b'" using assms(1) by (metis rev_is_rev_conv)
  then show ?thesis using assms(1) by simp
qed

lemma components_hd: "components p \<noteq> [] \<and> prefix (hd (components p)) p"
  by (induction p) (auto split: list.splits)

lemma components_sublist: "n \<in> set (components p) \<Longrightarrow> sublist n p"
proof (induction p arbitrary: n)
  case Nil
  then show ?case by simp
next
  case (Cons c cs)
  show ?case
  proof (cases "c = CHR ''/''")
    case True
    then show ?thesis using Cons by (auto simp: sublist_Cons_right)
  next
    case False
    obtain x xs where xs: "components cs = x # xs"
      using components_hd[of cs] by (cases "components cs") auto
    then have "n = c # x \<or> n \<in> set xs"
      using Cons.prems False by simp
    then show ?thesis
    proof
      assume "n = c # x"
      then have "prefix n (c # cs)" using components_hd[of cs] xs by simp
      then show ?thesis by (rule prefix_imp_sublist)
    next
      assume "n \<in> set xs"
      then have "n \<in> set (components cs)" using xs by simp
      then show ?thesis using Cons.IH by (simp add: sublist_Cons_right)
    qed
  qed
qed

lemma plain_ROOT_DIR: "plain_dir ROOT_DIR"
  by (simp add: plain_dir_def ROOT_DIR_def suffix_single)

lemma walked_path:
  assumes "valid_tree tree" "(root, dirs, fl) \<in> set (walk ROOT_DIR tree)" "file \<in> set fl"
  shows "path_join root file = root @ ''/'' @ file \<and> CHR ''/'' \<notin> set file"
  using walk_valid[OF assms(1) plain_ROOT_DIR assms(2)] assms(3) plain_dir_join by blast

lemma walked_path_inj:
  assumes "valid_tree tree"
    "(root, dirs, fl) \<in> set (walk ROOT_DIR tree)" "file \<in> set fl"
    "(root', dirs', fl') \<in> set (walk ROOT_DIR tree)" "file' \<in> set fl'"
    "path_join root file = path_join root' file'"
  shows "root = root' \<and> file = file'"
  using walked_path[OF assms(1,2,3)] walked_path[OF assms(1,4,5)] assms(6) join_inj
  by metis

lemma not_selected:
  assumes "valid_tree tree" "(root, dirs, fl) \<in> set (walk ROOT_DIR tree)" "file \<in> set fl"
    "skip_root root \<or> \<not> eligible file"
  shows "path_join root file \<notin> set (selected (walk ROOT_DIR tree))"
proof
  assume "path_join root file \<in> set (selected (walk ROOT_DIR tree))"
  then obtain root' dirs' fl' file' where s:
    "(root', dirs', fl') \<in> set (walk ROOT_DIR tree)" "\<not> skip_root root'" "file' \<in> set fl'"
    "eligible file'" "path_join root file = path_join root' file'"
    unfolding selected_iff by blast
  have "root = root' \<and> file = file'"
    by (rule walked_path_inj[OF assms(1,2,3) s(1,3,5)])
  with s(2,4) assms(4) show False by simp
qed

lemma run_untouched:
  "p \<notin> set (selected (walk ROOT_DIR tree)) \<Longrightarrow> untouched p fs (final (run tree fs out))"
  using calls_other[of p "selected (walk ROOT_DIR tree)" "\<lparr>files = fs, stdout = out, trace = []\<rparr>"]
  by (simp add: run_calls untouched_def)

lemma walk_example:
  "walk ROOT_DIR example_tree =
    [(''/Users/jukkritsuwannakum/Super-Platform'',
      [''src'', ''node_modules'', ''.github'', ''locked''], []),
     (''/Users/jukkritsuwannakum/Super-Platform/src'', [],
      [''a.ts'', ''b.tsx'', ''c.js'', ''d.jsx'', ''notes.md'', ''package.json'']),
     (''/Users/jukkritsuwannakum/Super-Platform/node_modules'', [''pkg''], []),
     (''/Users/jukkritsuwannakum/Super-Platform/node_modules/pkg'', [], [''index.js'']),
     (''/Users/jukkritsuwannakum/Super-Platform/.github'', [], [''ci.json''])]"
  by (simp add: example_tree_def ROOT_DIR_def path_join_def suffix_single)

lemma valid_example: "valid_tree example_tree"
  by (simp add: example_tree_def)

lemma new_content_example:
  "new_content_of sample_import = ''import x from '' @ DQ # ''@/lib/core'' @ [DQ]"
  by (simp add: sample_import_def new_content_of_def REPLACEMENTS_def)

lemma new_content_plain: "new_content_of ''export const a = 1;'' = ''export const a = 1;''"
  by (simp add: new_content_of_def REPLACEMENTS_def)

section \<open>The transformation of one buffer\<close>

text \<open>
  Claim C3. The transformed buffer is the composition of the fourteen replacements in the
  order of the table, each applied to the result of the one before. A replacement leaves a
  text without the pattern as it is, and otherwise rewrites the leftmost occurrence and goes
  on behind it, so occurrences are replaced from left to right without overlap. The content
  \<open>import x from '@platform/core';\<close> becomes \<open>import x from '@/lib/core';\<close>.
\<close>

theorem new_content_sequential:
  "new_content_of content =
     str_replace (DQ # ''@modules/'') (DQ # ''@/modules/'')
    (str_replace (SQ # ''@modules/'') (SQ # ''@/modules/'')
    (str_replace (DQ # ''@platform/types'' @ [DQ]) (DQ # ''@/lib/types'' @ [DQ])
    (str_replace (SQ # ''@platform/types'' @ [SQ]) (SQ # ''@/lib/types'' @ [SQ])
    (str_replace (DQ # ''@platform/firebase-admin'' @ [DQ]) (DQ # ''@/lib/firebase-admin'' @ [DQ])
    (str_replace (SQ # ''@platform/firebase-admin'' @ [SQ]) (SQ # ''@/lib/firebase-admin'' @ [SQ])
    (str_replace (DQ # ''@platform/firebase'' @ [DQ]) (DQ # ''@/lib/firebase'' @ [DQ])
    (str_replace (SQ # ''@platform/firebase'' @ [SQ]) (SQ # ''@/lib/firebase'' @ [SQ])
    (str_replace (DQ # ''@platform/ui'' @ [DQ]) (DQ # ''@super-platform/ui-base'' @ [DQ])
    (str_replace (SQ # ''@platform/ui'' @ [SQ]) (SQ # ''@super-platform/ui-base'' @ [SQ])
    (str_replace (DQ # ''@platform/ui-kit'' @ [DQ]) (DQ # ''@super-platform/ui'' @ [DQ])
    (str_replace (SQ # ''@platform/ui-kit'' @ [SQ]) (SQ # ''@super-platform/ui'' @ [SQ])
    (str_replace (DQ # ''@platform/core'' @ [DQ]) (DQ # ''@/lib/core'' @ [DQ])
    (str_replace (SQ # ''@platform/core'' @ [SQ]) (SQ # ''@/lib/core'' @ [SQ])
       content)))))))))))))
   \<and> length REPLACEMENTS = 14
   \<and> (\<not> sublist old s \<longrightarrow> str_replace old new s = s)
   \<and> (old \<noteq> [] \<and> \<not> sublist old (a @ butlast old) \<longrightarrow>
        str_replace old new (a @ old @ b) = a @ new @ str_replace old new b)
   \<and> new_content_of (''import x from '' @ SQ # ''@platform/core'' @ [SQ] @ '';'')
        = ''import x from '' @ SQ # ''@/lib/core'' @ [SQ] @ '';''"
proof -
  have ex: "new_content_of (''import x from '' @ SQ # ''@platform/core'' @ [SQ] @ '';'')
        = ''import x from '' @ SQ # ''@/lib/core'' @ [SQ] @ '';''"
    by (simp add: new_content_of_def REPLACEMENTS_def)
  have len: "length REPLACEMENTS = 14"
    by (simp add: REPLACEMENTS_def)
  have comp: "new_content_of content =
     str_replace (DQ # ''@modules/'') (DQ # ''@/modules/'')
    (str_replace (SQ # ''@modules/'') (SQ # ''@/modules/'')
    (str_replace (DQ # ''@platform/types'' @ [DQ]) (DQ # ''@/lib/types'' @ [DQ])
    (str_replace (SQ # ''@platform/types'' @ [SQ]) (SQ # ''@/lib/types'' @ [SQ])
    (str_replace (DQ # ''@platform/firebase-admin'' @ [DQ]) (DQ # ''@/lib/firebase-admin'' @ [DQ])
    (str_replace (SQ # ''@platform/firebase-admin'' @ [SQ]) (SQ # ''@/lib/firebase-admin'' @ [SQ])
    (str_replace (DQ # ''@platform/firebase'' @ [DQ]) (DQ # ''@/lib/firebase'' @ [DQ])
    (str_replace (SQ # ''@platform/firebase'' @ [SQ]) (SQ # ''@/lib/firebase'' @ [SQ])
    (str_replace (DQ # ''@platform/ui'' @ [DQ]) (DQ # ''@super-platform/ui-base'' @ [DQ])
    (str_replace (SQ # ''@platform/ui'' @ [SQ]) (SQ # ''@super-platform/ui-base'' @ [SQ])
    (str_replace (DQ # ''@platform/ui-kit'' @ [DQ]) (DQ # ''@super-platform/ui'' @ [DQ])
    (str_replace (SQ # ''@platform/ui-kit'' @ [SQ]) (SQ # ''@super-platform/ui'' @ [SQ])
    (str_replace (DQ # ''@platform/core'' @ [DQ]) (DQ # ''@/lib/core'' @ [DQ])
    (str_replace (SQ # ''@platform/core'' @ [SQ]) (SQ # ''@/lib/core'' @ [SQ])
       content)))))))))))))"
    unfolding new_content_of_def REPLACEMENTS_def apply_rules.simps append.simps ..
  have absent: "\<not> sublist old s \<longrightarrow> str_replace old new s = s"
    by (rule impI) (rule str_replace_absent)
  have leftmost: "old \<noteq> [] \<and> \<not> sublist old (a @ butlast old) \<longrightarrow>
        str_replace old new (a @ old @ b) = a @ new @ str_replace old new b"
    using str_replace_leftmost[of old a new b] by blast
  from comp len absent leftmost ex show ?thesis by (intro conjI)
qed

theorem new_content_sequential_witness:
  "\<not> sublist (SQ # ''@modules/'') ''let a = 1;''
   \<and> str_replace (SQ # ''@modules/'') (SQ # ''@/modules/'') ''let a = 1;'' = ''let a = 1;''
   \<and> SQ # ''@modules/'' \<noteq> []
   \<and> \<not> sublist (SQ # ''@modules/'') (''from '' @ butlast (SQ # ''@modules/''))
   \<and> str_replace (SQ # ''@modules/'') (SQ # ''@/modules/'')
        (''from '' @ (SQ # ''@modules/'') @ (''a'' @ SQ # ''@modules/b''))
      = ''from '' @ (SQ # ''@/modules/'') @ ''a'' @ SQ # ''@/modules/b''"
  using new_content_sequential
    [of "[]" "SQ # ''@modules/''" "''let a = 1;''" "SQ # ''@/modules/''" "''from ''"
        "''a'' @ SQ # ''@modules/b''"]
  by (simp add: sublist_code)

section \<open>Writing back\<close>

text \<open>
  Claim C5. A file whose transformed buffer equals its content is not written by the run: its
  state stays the same, it is never opened for writing and no \<open>Updated\<close> line names it,
  however the run ends; this holds for every file that contains none of the fourteen
  patterns. For a file that is read without failure, \<open>update_file\<close> does not open it for
  writing when the transformed buffer equals the content; when the buffer differs it opens
  the file for writing and (the write succeeding) leaves the buffer in it, and it prints
  \<open>Updated: <path>\<close> (the standard output taking the line).
\<close>

theorem unchanged_not_written:
  "(new_content_of (data (fs p)) = data (fs p) \<longrightarrow>
      files (final (run tree fs out)) p = fs p \<and>
      OpenWrite p \<notin> set (trace (final (run tree fs out))) \<and>
      Print (''Updated: '' @ p) \<notin> set (trace (final (run tree fs out))))
   \<and> ((\<forall>(old, new) \<in> set REPLACEMENTS. \<not> sublist old (data (fs p))) \<longrightarrow>
        new_content_of (data (fs p)) = data (fs p))
   \<and> (rfail (files w0 p) = None \<and> new_content_of (data (files w0 p)) = data (files w0 p) \<longrightarrow>
        update_file p w0 = Completed (emit [OpenRead p] w0))
   \<and> (rfail (files w0 p) = None \<and> wfail (files w0 p) = None \<and>
       new_content_of (data (files w0 p)) \<noteq> data (files w0 p) \<longrightarrow>
        data (files (final (update_file p w0)) p) = new_content_of (data (files w0 p)) \<and>
        OpenWrite p \<in> set (trace (final (update_file p w0))))
   \<and> (rfail (files w0 p) = None \<and> wfail (files w0 p) = None \<and>
       new_content_of (data (files w0 p)) \<noteq> data (files w0 p) \<and>
       stdout w0 (trace w0 @ [OpenRead p, OpenWrite p]) (''Updated: '' @ p) = None \<longrightarrow>
        update_file p w0 =
          Completed (emit [OpenRead p, OpenWrite p, Print (''Updated: '' @ p)]
            (w0\<lparr>files := (files w0)
                   (p := (files w0 p)\<lparr>data := new_content_of (data (files w0 p))\<rparr>)\<rparr>)))"
proof -
  let ?w = "final (calls (selected (walk ROOT_DIR tree)) \<lparr>files = fs, stdout = out, trace = []\<rparr>)"
  have "quiet p ?w \<and> files ?w p = fs p"
    if "new_content_of (data (fs p)) = data (fs p)"
    using calls_quiet[of p "\<lparr>files = fs, stdout = out, trace = []\<rparr>" "selected (walk ROOT_DIR tree)"]
      that
    by (simp add: quiet_def)
  then have a: "new_content_of (data (fs p)) = data (fs p) \<longrightarrow>
      files (final (run tree fs out)) p = fs p \<and>
      OpenWrite p \<notin> set (trace (final (run tree fs out))) \<and>
      Print (''Updated: '' @ p) \<notin> set (trace (final (run tree fs out)))"
    by (simp add: run_calls quiet_def)
  have b: "(\<forall>(old, new) \<in> set REPLACEMENTS. \<not> sublist old (data (fs p))) \<longrightarrow>
        new_content_of (data (fs p)) = data (fs p)"
    unfolding new_content_of_def by (rule impI) (rule apply_rules_absent)
  show ?thesis
    using a b update_file_unchanged[of w0 p] update_file_changed[of w0 p]
      update_file_written[of w0 p]
    by blast
qed

theorem unchanged_not_written_witness:
  "list_all (\<lambda>(old, new). \<not> sublist old ''export const a = 1;'') REPLACEMENTS
   \<and> new_content_of ''export const a = 1;'' = ''export const a = 1;''
   \<and> files (final (run example_tree example_files stdout_open))
        ''/Users/jukkritsuwannakum/Super-Platform/src/b.tsx''
      = example_files ''/Users/jukkritsuwannakum/Super-Platform/src/b.tsx''
   \<and> OpenWrite ''/Users/jukkritsuwannakum/Super-Platform/src/b.tsx''
        \<notin> set (trace (final (run example_tree example_files stdout_open)))
   \<and> Print ''Updated: /Users/jukkritsuwannakum/Super-Platform/src/b.tsx''
        \<notin> set (trace (final (run example_tree example_files stdout_open)))
   \<and> update_file ''/Users/jukkritsuwannakum/Super-Platform/src/b.tsx''
        \<lparr>files = example_files, stdout = stdout_open, trace = []\<rparr>
      = Completed (emit [OpenRead ''/Users/jukkritsuwannakum/Super-Platform/src/b.tsx'']
          \<lparr>files = example_files, stdout = stdout_open, trace = []\<rparr>)
   \<and> new_content_of sample_import \<noteq> sample_import
   \<and> update_file ''/Users/jukkritsuwannakum/Super-Platform/src/c.js''
        \<lparr>files = example_files, stdout = stdout_open, trace = []\<rparr>
      = Completed (emit [OpenRead ''/Users/jukkritsuwannakum/Super-Platform/src/c.js'',
              OpenWrite ''/Users/jukkritsuwannakum/Super-Platform/src/c.js'',
              Print ''Updated: /Users/jukkritsuwannakum/Super-Platform/src/c.js'']
          (\<lparr>files = example_files
               (''/Users/jukkritsuwannakum/Super-Platform/src/c.js'' :=
                  \<lparr>data = ''import x from '' @ DQ # ''@/lib/core'' @ [DQ],
                   rfail = None, wfail = None\<rparr>),
            stdout = stdout_open, trace = []\<rparr>))
   \<and> data (files (final (update_file ''/Users/jukkritsuwannakum/Super-Platform/src/c.js''
                \<lparr>files = example_files, stdout = stdout_closed, trace = []\<rparr>))
          ''/Users/jukkritsuwannakum/Super-Platform/src/c.js'')
      = ''import x from '' @ DQ # ''@/lib/core'' @ [DQ]
   \<and> OpenWrite ''/Users/jukkritsuwannakum/Super-Platform/src/c.js''
        \<in> set (trace (final (update_file ''/Users/jukkritsuwannakum/Super-Platform/src/c.js''
                \<lparr>files = example_files, stdout = stdout_closed, trace = []\<rparr>)))"
proof -
  let ?b = "''/Users/jukkritsuwannakum/Super-Platform/src/b.tsx''"
  let ?c = "''/Users/jukkritsuwannakum/Super-Platform/src/c.js''"
  let ?W = "\<lparr>files = example_files, stdout = stdout_open, trace = []\<rparr>"
  let ?V = "\<lparr>files = example_files, stdout = stdout_closed, trace = []\<rparr>"
  have la: "list_all (\<lambda>(old, new). \<not> sublist old ''export const a = 1;'') REPLACEMENTS"
    by (simp add: REPLACEMENTS_def sublist_code)
  then have absent: "\<forall>(old, new) \<in> set REPLACEMENTS. \<not> sublist old ''export const a = 1;''"
    by (simp add: list_all_iff)
  have b: "data (example_files ?b) = ''export const a = 1;''" "rfail (example_files ?b) = None"
    by (simp_all add: example_files_def)
  have c: "example_files ?c = \<lparr>data = sample_import, rfail = None, wfail = None\<rparr>"
    by (simp add: example_files_def)
  have ne: "new_content_of sample_import \<noteq> sample_import"
    by (simp only: new_content_example) (simp add: sample_import_def)
  note t1 = unchanged_not_written[of example_files ?b example_tree stdout_open ?W]
  note t2 = unchanged_not_written[of example_files ?c example_tree stdout_open ?W]
  note t3 = unchanged_not_written[of example_files ?c example_tree stdout_open ?V]
  have same: "new_content_of ''export const a = 1;'' = ''export const a = 1;''"
    using t1 absent unfolding b by blast
  have r1: "files (final (run example_tree example_files stdout_open)) ?b = example_files ?b
      \<and> OpenWrite ?b \<notin> set (trace (final (run example_tree example_files stdout_open)))
      \<and> Print ''Updated: /Users/jukkritsuwannakum/Super-Platform/src/b.tsx''
          \<notin> set (trace (final (run example_tree example_files stdout_open)))"
    using t1 same unfolding b by simp
  have r2: "update_file ?b ?W = Completed (emit [OpenRead ?b] ?W)"
    using t1 same b by simp
  have d: "rfail (files ?W ?c) = None \<and> wfail (files ?W ?c) = None \<and>
           new_content_of (data (files ?W ?c)) \<noteq> data (files ?W ?c) \<and>
           stdout ?W (trace ?W @ [OpenRead ?c, OpenWrite ?c]) (''Updated: '' @ ?c) = None"
    by (simp only: world.select_convs c file_state.select_convs ne stdout_open_def simp_thms)
  have "update_file ?c ?W
      = Completed (emit [OpenRead ?c, OpenWrite ?c, Print (''Updated: '' @ ?c)]
          (?W\<lparr>files := (files ?W)
               (?c := (files ?W ?c)\<lparr>data := new_content_of (data (files ?W ?c))\<rparr>)\<rparr>))"
    using t2 d by blast
  then have r3: "update_file ?c ?W
      = Completed (emit [OpenRead ?c, OpenWrite ?c,
              Print ''Updated: /Users/jukkritsuwannakum/Super-Platform/src/c.js'']
          (\<lparr>files = example_files
               (?c := \<lparr>data = ''import x from '' @ DQ # ''@/lib/core'' @ [DQ],
                   rfail = None, wfail = None\<rparr>),
            stdout = stdout_open, trace = []\<rparr>))"
    by (simp only: world.select_convs world.update_convs c file_state.select_convs
          file_state.update_convs new_content_example append.simps)
  have d': "rfail (files ?V ?c) = None \<and> wfail (files ?V ?c) = None \<and>
           new_content_of (data (files ?V ?c)) \<noteq> data (files ?V ?c)"
    by (simp only: world.select_convs c file_state.select_convs ne simp_thms)
  have "data (files (final (update_file ?c ?V)) ?c) = new_content_of (data (files ?V ?c)) \<and>
        OpenWrite ?c \<in> set (trace (final (update_file ?c ?V)))"
    using t3 d' by blast
  then have r4: "data (files (final (update_file ?c ?V)) ?c)
        = ''import x from '' @ DQ # ''@/lib/core'' @ [DQ] \<and>
        OpenWrite ?c \<in> set (trace (final (update_file ?c ?V)))"
    by (simp only: world.select_convs c file_state.select_convs new_content_example)
  from la same r1 r2 ne r3 r4 show ?thesis by (intro conjI) blast+
qed

section \<open>Which files the traversal touches\<close>

text \<open>
  Claim C6. A file that the walk lists and whose name has none of the five extensions, or is
  exactly \<open>package.json\<close> or \<open>package-lock.json\<close>, is left alone by the run whatever
  it contains and however the run ends: its state is unchanged and it is never opened for
  reading or for writing.
\<close>

theorem ineligible_untouched:
  assumes "valid_tree tree" "(root, dirs, fl) \<in> set (walk ROOT_DIR tree)" "file \<in> set fl"
    "\<not> has_extension file \<or> file = ''package.json'' \<or> file = ''package-lock.json''"
  shows "untouched (path_join root file) fs (final (run tree fs out))"
proof -
  have "\<not> eligible file" using assms(4) by (auto simp: eligible_def)
  then show ?thesis using not_selected[OF assms(1,2,3)] run_untouched by blast
qed

theorem ineligible_untouched_witness:
  "data (example_files ''/Users/jukkritsuwannakum/Super-Platform/src/package.json'')
     = sample_import
   \<and> untouched ''/Users/jukkritsuwannakum/Super-Platform/src/package.json'' example_files
        (final (run example_tree example_files stdout_open))
   \<and> \<not> has_extension ''notes.md''
   \<and> untouched ''/Users/jukkritsuwannakum/Super-Platform/src/notes.md'' example_files
        (final (run example_tree example_files stdout_open))"
proof -
  have m: "(''/Users/jukkritsuwannakum/Super-Platform/src'', [],
            [''a.ts'', ''b.tsx'', ''c.js'', ''d.jsx'', ''notes.md'', ''package.json''])
           \<in> set (walk ROOT_DIR example_tree)"
    unfolding walk_example by simp
  have j: "path_join ''/Users/jukkritsuwannakum/Super-Platform/src'' ''package.json''
             = ''/Users/jukkritsuwannakum/Super-Platform/src/package.json''"
          "path_join ''/Users/jukkritsuwannakum/Super-Platform/src'' ''notes.md''
             = ''/Users/jukkritsuwannakum/Super-Platform/src/notes.md''"
    by (simp_all add: path_join_def suffix_single)
  have n: "\<not> has_extension ''notes.md''"
    by (simp add: has_extension_def suffix_def)
  have "untouched ''/Users/jukkritsuwannakum/Super-Platform/src/package.json'' example_files
          (final (run example_tree example_files stdout_open))"
    using ineligible_untouched[OF valid_example m, of "''package.json''" example_files stdout_open]
    unfolding j by simp
  moreover have "untouched ''/Users/jukkritsuwannakum/Super-Platform/src/notes.md'' example_files
          (final (run example_tree example_files stdout_open))"
    using ineligible_untouched[OF valid_example m, of "''notes.md''" example_files stdout_open] n
    unfolding j by simp
  ultimately show ?thesis using n by (simp add: example_files_def)
qed

text \<open>
  Claim C7 says that the run never visits a file under a directory named \<open>node_modules\<close>,
  \<open>.git\<close> or \<open>.next\<close> because such a directory is pruned before its files are
  iterated. The loop prunes nothing: it never changes \<open>dirs\<close>, so the walk enters an
  excluded directory and the directories below it and yields each of them with its files.
  In the example tree the walk yields \<open>node_modules/pkg\<close> with the file \<open>index.js\<close>.
\<close>

theorem excluded_dir_is_walked:
  "(''/Users/jukkritsuwannakum/Super-Platform/node_modules/pkg'', [], [''index.js''])
     \<in> set (walk ROOT_DIR example_tree)
   \<and> ''node_modules''
        \<in> set (components ''/Users/jukkritsuwannakum/Super-Platform/node_modules/pkg'')"
  unfolding walk_example by simp

text \<open>
  Claim C7, as amended. A file that the walk lists in a directory whose path has a component
  named \<open>node_modules\<close>, \<open>.git\<close> or \<open>.next\<close> is left alone by the run, eligible or
  not and however the run ends: its state is unchanged and it is never opened. The walk
  still yields the directory; the loop skips it before it looks at its files.
\<close>

theorem excluded_dir_untouched:
  assumes "valid_tree tree" "(root, dirs, fl) \<in> set (walk ROOT_DIR tree)" "file \<in> set fl"
    "d \<in> set (components root)" "d = ''node_modules'' \<or> d = ''.git'' \<or> d = ''.next''"
  shows "untouched (path_join root file) fs (final (run tree fs out))"
proof -
  have "sublist d root" using assms(4) by (rule components_sublist)
  then have "skip_root root" using assms(5) by (auto simp: skip_root_def)
  then show ?thesis using not_selected[OF assms(1,2,3)] run_untouched by blast
qed

theorem excluded_dir_untouched_witness:
  "eligible ''index.js''
   \<and> ''node_modules''
        \<in> set (components ''/Users/jukkritsuwannakum/Super-Platform/node_modules/pkg'')
   \<and> data (example_files ''/Users/jukkritsuwannakum/Super-Platform/node_modules/pkg/index.js'')
        = sample_import
   \<and> untouched ''/Users/jukkritsuwannakum/Super-Platform/node_modules/pkg/index.js''
        example_files (final (run example_tree example_files stdout_open))"
proof -
  have m: "(''/Users/jukkritsuwannakum/Super-Platform/node_modules/pkg'', [], [''index.js''])
           \<in> set (walk ROOT_DIR example_tree)"
    unfolding walk_example by simp
  have j: "path_join ''/Users/jukkritsuwannakum/Super-Platform/node_modules/pkg'' ''index.js''
             = ''/Users/jukkritsuwannakum/Super-Platform/node_modules/pkg/index.js''"
    by (simp add: path_join_def suffix_single)
  have c: "''node_modules''
        \<in> set (components ''/Users/jukkritsuwannakum/Super-Platform/node_modules/pkg'')"
    by simp
  have e: "eligible ''index.js''"
    by (simp add: eligible_def has_extension_def suffix_def)
  have "untouched ''/Users/jukkritsuwannakum/Super-Platform/node_modules/pkg/index.js''
          example_files (final (run example_tree example_files stdout_open))"
    using excluded_dir_untouched
      [OF valid_example m _ c, of "''index.js''" example_files stdout_open]
    unfolding j by simp
  then show ?thesis using c e by (simp add: example_files_def)
qed

text \<open>
  Claim C10. The test that skips a directory is a substring test on the whole path of the
  directory: a file that the walk lists in a directory whose path contains \<open>node_modules\<close>,
  \<open>.git\<close> or \<open>.next\<close> anywhere is left alone, so the files of a directory \<open>.github\<close>
  are never processed although no component of its path is one of the three names.
\<close>

theorem substring_dir_untouched:
  assumes "valid_tree tree" "(root, dirs, fl) \<in> set (walk ROOT_DIR tree)" "file \<in> set fl"
    "sublist ''node_modules'' root \<or> sublist ''.git'' root \<or> sublist ''.next'' root"
  shows "untouched (path_join root file) fs (final (run tree fs out))"
proof -
  have "skip_root root" using assms(4) by (simp add: skip_root_def)
  then show ?thesis using not_selected[OF assms(1,2,3)] run_untouched by blast
qed

theorem substring_dir_untouched_witness:
  "eligible ''ci.json''
   \<and> components ''/Users/jukkritsuwannakum/Super-Platform/.github''
        = [[], ''Users'', ''jukkritsuwannakum'', ''Super-Platform'', ''.github'']
   \<and> sublist ''.git'' ''/Users/jukkritsuwannakum/Super-Platform/.github''
   \<and> data (example_files ''/Users/jukkritsuwannakum/Super-Platform/.github/ci.json'')
        = sample_import
   \<and> untouched ''/Users/jukkritsuwannakum/Super-Platform/.github/ci.json''
        example_files (final (run example_tree example_files stdout_open))"
proof -
  have m: "(''/Users/jukkritsuwannakum/Super-Platform/.github'', [], [''ci.json''])
           \<in> set (walk ROOT_DIR example_tree)"
    unfolding walk_example by simp
  have j: "path_join ''/Users/jukkritsuwannakum/Super-Platform/.github'' ''ci.json''
             = ''/Users/jukkritsuwannakum/Super-Platform/.github/ci.json''"
    by (simp add: path_join_def suffix_single)
  have s: "sublist ''.git'' ''/Users/jukkritsuwannakum/Super-Platform/.github''"
    by (simp add: sublist_code)
  have e: "eligible ''ci.json''"
    by (simp add: eligible_def has_extension_def suffix_def)
  have "untouched ''/Users/jukkritsuwannakum/Super-Platform/.github/ci.json''
          example_files (final (run example_tree example_files stdout_open))"
    using substring_dir_untouched[OF valid_example m, of "''ci.json''" example_files stdout_open] s
    unfolding j by simp
  then show ?thesis using s e by (simp add: example_files_def)
qed

section \<open>Failures\<close>




text \<open>
  Claim C9, as amended. When the root directory cannot be listed (it does not exist, or it
  is not a directory), the walk yields nothing: the run completes normally, opens no file,
  changes no file and prints nothing. There is no abort and no diagnostic.
\<close>

theorem unlistable_root_completes_silently:
  "run Unlistable fs out = Completed \<lparr>files = fs, stdout = out, trace = []\<rparr>
   \<and> run FileEntry fs out = Completed \<lparr>files = fs, stdout = out, trace = []\<rparr>"
  by (simp add: run_def)

theorem unlistable_root_counterexample:
  "run Unlistable example_files stdout_open
     = Completed \<lparr>files = example_files, stdout = stdout_open, trace = []\<rparr>"
  by (simp add: run_def)

section \<open>Tokens and literal replacement\<close>

text \<open>Cutting a text and spelling the tokens are inverse to each other.\<close>

lemma spell_simps [simp]: "spell [] = []" "spell ((q, w) # ts) = q # w @ spell ts"
  by (simp_all add: spell_def)

lemma spell_append: "spell (xs @ ys) = spell xs @ spell ys"
  by (simp add: spell_def)

lemma well_cut_simps [simp]:
  "well_cut []" "well_cut ((q, w) # ts) \<longleftrightarrow> is_quote q \<and> plain w \<and> well_cut ts"
  by (auto simp: well_cut_def)

lemma toks_spell: "toks s = (u, ts) \<Longrightarrow> s = u @ spell ts"
  by (induction s arbitrary: u ts) (auto split: prod.splits if_splits)

lemma toks_well_cut: "toks s = (u, ts) \<Longrightarrow> plain u \<and> well_cut ts"
  by (induction s arbitrary: u ts) (auto simp: plain_def split: prod.splits if_splits)

lemma toks_unique: "plain u \<Longrightarrow> well_cut ts \<Longrightarrow> toks (u @ spell ts) = (u, ts)"
proof (induction u)
  case Nil
  then show ?case
  proof (induction ts)
    case Nil
    show ?case by simp
  next
    case (Cons t ts)
    obtain q w where t: "t = (q, w)" by (cases t)
    have w: "plain w" "is_quote q" "well_cut ts" using Cons.prems(2) t by auto
    have "toks (w @ spell ts) = (w, ts)" using w(1)
    proof (induction w)
      case Nil
      then show ?case using Cons.IH w(3) by (simp add: plain_def)
    next
      case (Cons c w)
      then show ?case by (simp add: plain_def)
    qed
    then show ?case using t w by simp
  qed
next
  case (Cons c u)
  then show ?case by (simp add: plain_def)
qed

text \<open>
  A replacement whose pattern starts with a quote acts on the tokens: \<open>str_replace\<close> on
  the spelled text is \<open>rep_exact\<close> or \<open>rep_starts\<close> on the tokens.
\<close>

lemma str_replace_plain:
  "plain u \<Longrightarrow> is_quote q \<Longrightarrow> str_replace (q # old) new (u @ s) = u @ str_replace (q # old) new s"
  by (induction u) (auto simp: plain_def)

lemma spell_head: "well_cut ts \<Longrightarrow> spell ts = [] \<or> is_quote (hd (spell ts))"
  by (cases ts) auto

lemma prefix_word_quote:
  assumes "is_quote q" "plain w" "plain w1" "s = [] \<or> is_quote (hd s)"
  shows "prefix (w @ [q]) (w1 @ s) \<longleftrightarrow> w1 = w \<and> s \<noteq> [] \<and> hd s = q"
  using assms(2,3)
proof (induction w arbitrary: w1)
  case Nil
  show ?case
  proof (cases w1)
    case Nil
    then show ?thesis by (cases s) auto
  next
    case (Cons c w1')
    then show ?thesis using Nil.prems assms(1) by (auto simp: plain_def)
  qed
next
  case (Cons a w)
  show ?case
  proof (cases w1)
    case Nil
    then show ?thesis using Cons.prems assms(4) by (cases s) (auto simp: plain_def)
  next
    case (Cons c w1')
    then show ?thesis using Cons.IH[of w1'] Cons.prems by (auto simp: plain_def)
  qed
qed

lemma prefix_word_plain:
  assumes "plain w" "s = [] \<or> is_quote (hd s)"
  shows "prefix w (w1 @ s) \<longleftrightarrow> prefix w w1"
  using assms(1)
proof (induction w arbitrary: w1)
  case Nil
  show ?case by simp
next
  case (Cons a w)
  show ?case
  proof (cases w1)
    case Nil
    then show ?thesis using Cons.prems assms(2) by (cases s) (auto simp: plain_def)
  next
    case (Cons c w1')
    then show ?thesis using Cons.IH[of w1'] Cons.prems by (auto simp: plain_def)
  qed
qed

lemma rep_exact_spell:
  "is_quote q \<Longrightarrow> plain w \<Longrightarrow> well_cut ts \<Longrightarrow>
    str_replace (q # w @ [q]) (q # w' @ [q]) (spell ts) = spell (rep_exact q w w' ts)"
proof (induction q w w' ts rule: rep_exact.induct)
  case (1 q w w' q1 w1 q2 w2 ts)
  note qw = "1.prems"(1,2)
  have wc: "is_quote q1" "plain w1" "is_quote q2" "plain w2" "well_cut ts"
    using "1.prems"(3) by auto
  have pq: "prefix (w @ [q]) (w1 @ (q2 # w2 @ spell ts)) \<longleftrightarrow> w1 = w \<and> q2 = q"
    by (subst prefix_word_quote[OF qw wc(2)]) (use wc(3) in simp_all)
  have m: "prefix (q # w @ [q]) (spell ((q1, w1) # (q2, w2) # ts))
             \<longleftrightarrow> q1 = q \<and> w1 = w \<and> q2 = q" (is "?L \<longleftrightarrow> ?R")
  proof -
    have "?L \<longleftrightarrow> q = q1 \<and> prefix (w @ [q]) (w1 @ (q2 # w2 @ spell ts))" by simp
    also have "\<dots> \<longleftrightarrow> q = q1 \<and> (w1 = w \<and> q2 = q)" unfolding pq ..
    also have "\<dots> \<longleftrightarrow> ?R" by blast
    finally show ?thesis .
  qed
  have sp: "spell ((q1, w1) # (q2, w2) # ts) = q1 # w1 @ q2 # w2 @ spell ts" by simp
  show ?case
  proof (cases "q1 = q \<and> w1 = w \<and> q2 = q")
    case True
    have yes: "prefix (q # w @ [q]) (q1 # w1 @ q2 # w2 @ spell ts)" using m True by simp
    have "str_replace (q # w @ [q]) (q # w' @ [q]) (q1 # w1 @ q2 # w2 @ spell ts)
          = (q # w' @ [q]) @ str_replace (q # w @ [q]) (q # w' @ [q])
              (drop (length (q # w @ [q])) (q1 # w1 @ q2 # w2 @ spell ts))"
      by (simp only: str_replace.simps yes list.distinct if_False if_True simp_thms)
    also have "drop (length (q # w @ [q])) (q1 # w1 @ q2 # w2 @ spell ts) = w2 @ spell ts"
      using True by simp
    also have "str_replace (q # w @ [q]) (q # w' @ [q]) (w2 @ spell ts)
                 = w2 @ str_replace (q # w @ [q]) (q # w' @ [q]) (spell ts)"
      by (rule str_replace_plain[OF wc(4) qw(1)])
    finally have "str_replace (q # w @ [q]) (q # w' @ [q]) (q1 # w1 @ q2 # w2 @ spell ts)
          = (q # w' @ [q]) @ w2 @ spell (rep_exact q w w' ts)"
      using "1.IH"(1)[OF True qw wc(5)] by simp
    then show ?thesis unfolding sp using True by simp
  next
    case False
    have no: "\<not> prefix (q # w @ [q]) (q1 # w1 @ q2 # w2 @ spell ts)" using m False by simp
    have "str_replace (q # w @ [q]) (q # w' @ [q]) (q1 # w1 @ q2 # w2 @ spell ts)
          = q1 # str_replace (q # w @ [q]) (q # w' @ [q]) (w1 @ q2 # w2 @ spell ts)"
      by (simp only: str_replace.simps no list.distinct if_False simp_thms)
    also have "str_replace (q # w @ [q]) (q # w' @ [q]) (w1 @ q2 # w2 @ spell ts)
                 = w1 @ str_replace (q # w @ [q]) (q # w' @ [q]) (q2 # w2 @ spell ts)"
      by (rule str_replace_plain[OF wc(2) qw(1)])
    finally have "str_replace (q # w @ [q]) (q # w' @ [q]) (q1 # w1 @ q2 # w2 @ spell ts)
          = q1 # w1 @ spell (rep_exact q w w' ((q2, w2) # ts))"
      using "1.IH"(2)[OF False qw] wc by simp
    then show ?thesis unfolding sp using False by auto
  qed
next
  case (2 q w w')
  show ?case by simp
next
  case (3 q w w' t)
  note qw = "3.prems"(1,2)
  obtain q1 w1 where t: "t = (q1, w1)" by (cases t)
  have wc: "plain w1" using "3.prems"(3) t by simp
  have no: "\<not> prefix (q # w @ [q]) (q1 # w1)"
    using prefix_word_quote[OF qw wc, of "[]"] by simp
  have "str_replace (q # w @ [q]) (q # w' @ [q]) (q1 # w1)
             = q1 # str_replace (q # w @ [q]) (q # w' @ [q]) w1"
    by (simp only: str_replace.simps no list.distinct if_False simp_thms)
  also have "str_replace (q # w @ [q]) (q # w' @ [q]) w1 = w1"
    using str_replace_plain[OF wc qw(1), of "w @ [q]" "q # w' @ [q]" "[]"] by simp
  finally show ?case using t by simp
qed

lemma rep_starts_spell:
  assumes "is_quote q" "plain w" "well_cut ts"
  shows "str_replace (q # w) (q # w') (spell ts) = spell (map (rep_starts q w w') ts)"
  using assms(3)
proof (induction ts)
  case Nil
  show ?case by simp
next
  case (Cons t ts)
  obtain q1 w1 where t: "t = (q1, w1)" by (cases t)
  have wc: "is_quote q1" "plain w1" "well_cut ts" using Cons.prems t by auto
  have pw: "prefix w (w1 @ spell ts) \<longleftrightarrow> prefix w w1"
    by (rule prefix_word_plain[OF assms(2) spell_head[OF wc(3)]])
  have m: "prefix (q # w) (q1 # w1 @ spell ts) \<longleftrightarrow> q1 = q \<and> prefix w w1"
    (is "?L \<longleftrightarrow> ?R")
  proof -
    have "?L \<longleftrightarrow> q = q1 \<and> prefix w (w1 @ spell ts)" by simp
    also have "\<dots> \<longleftrightarrow> q = q1 \<and> prefix w w1" unfolding pw ..
    also have "\<dots> \<longleftrightarrow> ?R" by blast
    finally show ?thesis .
  qed
  have sp: "spell (t # ts) = q1 # w1 @ spell ts" using t by simp
  show ?case
  proof (cases "q1 = q \<and> prefix w w1")
    case True
    then obtain r where r: "w1 = w @ r" by (auto simp: prefix_def)
    have pr: "plain r" using wc(2) r by (simp add: plain_def)
    have yes: "prefix (q # w) (q1 # w1 @ spell ts)" using m True by simp
    have "str_replace (q # w) (q # w') (q1 # w1 @ spell ts)
          = (q # w') @ str_replace (q # w) (q # w') (drop (length (q # w)) (q1 # w1 @ spell ts))"
      by (simp only: str_replace.simps yes list.distinct if_False if_True simp_thms)
    also have "drop (length (q # w)) (q1 # w1 @ spell ts) = r @ spell ts"
      using r by simp
    also have "str_replace (q # w) (q # w') (r @ spell ts)
                 = r @ str_replace (q # w) (q # w') (spell ts)"
      by (rule str_replace_plain[OF pr assms(1)])
    finally have "str_replace (q # w) (q # w') (q1 # w1 @ spell ts)
          = (q # w') @ r @ spell (map (rep_starts q w w') ts)"
      using Cons.IH[OF wc(3)] by simp
    then show ?thesis unfolding sp using True t r by simp
  next
    case False
    have no: "\<not> prefix (q # w) (q1 # w1 @ spell ts)" using m False by simp
    have "str_replace (q # w) (q # w') (q1 # w1 @ spell ts)
          = q1 # str_replace (q # w) (q # w') (w1 @ spell ts)"
      by (simp only: str_replace.simps no list.distinct if_False simp_thms)
    also have "str_replace (q # w) (q # w') (w1 @ spell ts)
                 = w1 @ str_replace (q # w) (q # w') (spell ts)"
      by (rule str_replace_plain[OF wc(2) assms(1)])
    finally have "str_replace (q # w) (q # w') (q1 # w1 @ spell ts)
          = q1 # w1 @ spell (map (rep_starts q w w') ts)"
      using Cons.IH[OF wc(3)] by simp
    then show ?thesis unfolding sp using False t by auto
  qed
qed

section \<open>One rule, token by token\<close>

lemma rep_exact_fst: "map fst (rep_exact q w w' ts) = map fst ts"
  by (induction q w w' ts rule: rep_exact.induct) auto

lemma rep_exact_length: "length (rep_exact q w w' ts) = length ts"
  using rep_exact_fst[of q w w' ts] by (metis length_map)

lemma rep_exact_nth:
  "i < length ts \<Longrightarrow>
   rep_exact q w w' ts ! i = ts ! i \<or>
   (ts ! i = (q, w) \<and> Suc i < length ts \<and> fst (ts ! Suc i) = q \<and>
    rep_exact q w w' ts ! i = (q, w'))"
proof (induction q w w' ts arbitrary: i rule: rep_exact.induct)
  case (1 q w w' q1 w1 q2 w2 ts)
  show ?case
  proof (cases "q1 = q \<and> w1 = w \<and> q2 = q")
    case True
    show ?thesis
    proof (cases i)
      case 0
      then show ?thesis using True by simp
    next
      case (Suc j)
      show ?thesis
      proof (cases j)
        case 0
        then show ?thesis using True Suc by simp
      next
        case (Suc k)
        have "k < length ts" using "1.prems" \<open>i = Suc j\<close> Suc by simp
        from "1.IH"(1)[OF True this] show ?thesis
          using True \<open>i = Suc j\<close> Suc by simp
      qed
    qed
  next
    case False
    show ?thesis
    proof (cases i)
      case 0
      then show ?thesis using False by auto
    next
      case (Suc j)
      have "j < length ((q2, w2) # ts)" using "1.prems" Suc by simp
      from "1.IH"(2)[OF False this] show ?thesis
        using False Suc by auto
    qed
  qed
qed simp_all

lemma rep_exact_nth_first:
  "ts ! i = (q, w) \<Longrightarrow> Suc i < length ts \<Longrightarrow> fst (ts ! Suc i) = q \<Longrightarrow>
   i = 0 \<or> ts ! (i - 1) \<noteq> (q, w) \<Longrightarrow> rep_exact q w w' ts ! i = (q, w')"
proof (induction q w w' ts arbitrary: i rule: rep_exact.induct)
  case (1 q w w' q1 w1 q2 w2 ts)
  show ?case
  proof (cases "q1 = q \<and> w1 = w \<and> q2 = q")
    case True
    show ?thesis
    proof (cases i)
      case 0
      then show ?thesis using True by simp
    next
      case (Suc j)
      show ?thesis
      proof (cases j)
        case 0
        then show ?thesis using "1.prems"(4) True \<open>i = Suc j\<close> by simp
      next
        case (Suc k)
        have "ts ! k = (q, w)" "Suc k < length ts" "fst (ts ! Suc k) = q"
          using "1.prems"(1,2,3) \<open>i = Suc j\<close> Suc by simp_all
        moreover have "k = 0 \<or> ts ! (k - 1) \<noteq> (q, w)"
          using "1.prems"(4) \<open>i = Suc j\<close> Suc by (cases k) simp_all
        ultimately have "rep_exact q w w' ts ! k = (q, w')" by (rule "1.IH"(1)[OF True])
        then show ?thesis using True \<open>i = Suc j\<close> Suc by simp
      qed
    qed
  next
    case False
    show ?thesis
    proof (cases i)
      case 0
      then show ?thesis using False "1.prems"(1,3) by simp
    next
      case (Suc j)
      have "((q2, w2) # ts) ! j = (q, w)" "Suc j < length ((q2, w2) # ts)"
           "fst (((q2, w2) # ts) ! Suc j) = q"
        using "1.prems"(1,2,3) Suc by simp_all
      moreover have "j = 0 \<or> ((q2, w2) # ts) ! (j - 1) \<noteq> (q, w)"
        using "1.prems"(4) Suc by (cases j) simp_all
      ultimately have "rep_exact q w w' ((q2, w2) # ts) ! j = (q, w')"
        by (rule "1.IH"(2)[OF False])
      then show ?thesis using False Suc by auto
    qed
  qed
qed simp_all

lemma rep_exact_nth_hit:
  assumes "no_double q w ts" "ts ! i = (q, w)" "Suc i < length ts" "fst (ts ! Suc i) = q"
  shows "rep_exact q w w' ts ! i = (q, w')"
proof (rule rep_exact_nth_first[OF assms(2,3,4)])
  show "i = 0 \<or> ts ! (i - 1) \<noteq> (q, w)"
  proof (cases i)
    case 0
    then show ?thesis by simp
  next
    case (Suc j)
    have "ts ! j \<noteq> (q, w)"
    proof
      assume "ts ! j = (q, w)"
      then have "Suc (Suc j) < length ts \<and> ts ! j = (q, w) \<and> ts ! Suc j = (q, w) \<and>
                 fst (ts ! Suc (Suc j)) = q"
        using assms(2,3,4) Suc by simp
      then show False using assms(1) unfolding no_double_def by blast
    qed
    then show ?thesis using Suc by simp
  qed
qed

section \<open>The rules in sequence, token by token\<close>

lemma tok_step_fst: "map fst (tok_step r ts) = map fst ts"
proof (cases r)
  case (Exact q w w')
  then show ?thesis by (simp add: rep_exact_fst)
next
  case (Starts q w w')
  have "fst (rep_starts q w w' t) = fst t" for t by (cases t) simp
  then show ?thesis using Starts by (simp add: comp_def)
qed

lemma tok_step_length: "length (tok_step r ts) = length ts"
  using tok_step_fst[of r ts] by (metis length_map)

lemma closes_fst: "map fst ts' = map fst ts \<Longrightarrow> closes ts' i = closes ts i"
proof -
  assume m: "map fst ts' = map fst ts"
  then have l: "length ts' = length ts" by (metis length_map)
  have "fst (ts' ! k) = fst (ts ! k)" if "k < length ts" for k
    using m that l by (metis nth_map)
  then show ?thesis unfolding closes_def l by (metis Suc_lessD)
qed

lemma tok_step_nth:
  assumes "i < length ts"
  shows "tok_step r ts ! i = ts ! i \<or> tok_step r ts ! i = step1 r (closes ts i) (ts ! i)"
proof (cases r)
  case (Exact q w w')
  from rep_exact_nth[OF assms, of q w w'] show ?thesis
  proof
    assume "rep_exact q w w' ts ! i = ts ! i"
    then show ?thesis using Exact by simp
  next
    assume a: "ts ! i = (q, w) \<and> Suc i < length ts \<and> fst (ts ! Suc i) = q \<and>
               rep_exact q w w' ts ! i = (q, w')"
    then have "closes ts i" by (simp add: closes_def)
    then have "step1 r (closes ts i) (ts ! i) = (q, w')" using a Exact by (simp add: step1_def)
    then show ?thesis using a Exact by simp
  qed
next
  case (Starts q w w')
  have "rep_starts q w w' t = step1 r c t" for t c
    using Starts by (cases t) (simp add: step1_def)
  then show ?thesis using Starts assms by simp
qed

lemma tok_step_nth_nd:
  assumes "rule_no_double r ts" "i < length ts"
  shows "tok_step r ts ! i = step1 r (closes ts i) (ts ! i)"
proof (cases r)
  case (Exact q w w')
  have nd: "no_double q w ts" using assms(1) Exact by simp
  obtain q1 w1 where t: "ts ! i = (q1, w1)" by (cases "ts ! i")
  show ?thesis
  proof (cases "fires r (closes ts i) (ts ! i)")
    case True
    then have h: "ts ! i = (q, w)" "Suc i < length ts" "fst (ts ! Suc i) = q"
      using Exact t by (auto simp: closes_def)
    have "rep_exact q w w' ts ! i = (q, w')" by (rule rep_exact_nth_hit[OF nd h])
    then show ?thesis using True Exact h(1) by (simp add: step1_def)
  next
    case False
    from rep_exact_nth[OF assms(2), of q w w'] have "rep_exact q w w' ts ! i = ts ! i"
    proof
      assume "rep_exact q w w' ts ! i = ts ! i"
      then show ?thesis .
    next
      assume a: "ts ! i = (q, w) \<and> Suc i < length ts \<and> fst (ts ! Suc i) = q \<and>
                 rep_exact q w w' ts ! i = (q, w')"
      then have "fires r (closes ts i) (ts ! i)" using Exact by (simp add: closes_def)
      with False show ?thesis by simp
    qed
    then show ?thesis using False Exact by (simp add: step1_def)
  qed
next
  case (Starts q w w')
  have "rep_starts q w w' t = step1 r c t" for t c
    using Starts by (cases t) (simp add: step1_def)
  then show ?thesis using Starts assms by simp
qed

lemma tok_steps_append: "tok_steps (xs @ ys) ts = tok_steps ys (tok_steps xs ts)"
  by (induction xs arbitrary: ts) simp_all

lemma run1_append: "run1 (xs @ ys) c t = run1 ys c (run1 xs c t)"
  by (induction xs arbitrary: t) simp_all

lemma tok_steps_fst: "map fst (tok_steps rs ts) = map fst ts"
  by (induction rs arbitrary: ts) (simp_all add: tok_step_fst)

lemma tok_steps_length: "length (tok_steps rs ts) = length ts"
  using tok_steps_fst[of rs ts] by (metis length_map)

lemma run1_settled: "settled rs c t \<Longrightarrow> set rs' \<subseteq> set rs \<Longrightarrow> run1 rs' c t = t"
  by (induction rs') (auto simp: settled_def step1_def)

lemma run1_cases:
  assumes "stable rs"
  shows "set rs' \<subseteq> set rs \<Longrightarrow>
    (settled rs' c t \<and> run1 rs' c t = t) \<or> settled rs c (run1 rs' c t)"
proof (induction rs' arbitrary: t)
  case Nil
  show ?case by (simp add: settled_def)
next
  case (Cons r rs')
  have r: "r \<in> set rs" and sub: "set rs' \<subseteq> set rs" using Cons.prems by auto
  show ?case
  proof (cases "fires r c t")
    case True
    then have s: "settled rs c (rewrite1 r t)" using assms r unfolding stable_def by blast
    have "run1 (r # rs') c t = run1 rs' c (rewrite1 r t)" using True by (simp add: step1_def)
    also have "\<dots> = rewrite1 r t" by (rule run1_settled[OF s sub])
    finally show ?thesis using s by simp
  next
    case False
    then have e: "run1 (r # rs') c t = run1 rs' c t" by (simp add: step1_def)
    from Cons.IH[OF sub, of t] show ?thesis
      unfolding e using False by (auto simp: settled_def)
  qed
qed

lemma run1_is_settled: "stable rs \<Longrightarrow> settled rs c (run1 rs c t)"
  using run1_cases[of rs rs c t] by auto

section \<open>The table on the tokens\<close>

lemma table_encode: "map encode TOKEN_RULES = REPLACEMENTS"
  by (simp add: TOKEN_RULES_def REPLACEMENTS_def)

lemma table_good: "list_all good_rule TOKEN_RULES"
  by (simp add: TOKEN_RULES_def is_quote_def plain_def)

lemma table_stable: "stable TOKEN_RULES"
  unfolding stable_def settled_def TOKEN_RULES_def by (auto simp: Cons_eq_append_conv)

lemma tok_steps_nth:
  assumes stab: "stable rs" and nodbl: "\<forall>r \<in> set rs. rule_no_double r ts"
  shows "set rs1 \<subseteq> set rs \<Longrightarrow> i < length ts \<Longrightarrow>
           tok_steps rs1 ts ! i = run1 rs1 (closes ts i) (ts ! i)"
proof (induction rs1 arbitrary: i rule: rev_induct)
  case Nil
  show ?case by simp
next
  case (snoc r rs1)
  have r: "r \<in> set rs" and sub: "set rs1 \<subseteq> set rs" using snoc.prems(1) by auto
  let ?st = "tok_steps rs1 ts"
  have len: "length ?st = length ts" by (rule tok_steps_length)
  have fsts: "map fst ?st = map fst ts" by (rule tok_steps_fst)
  have ih: "?st ! k = run1 rs1 (closes ts k) (ts ! k)" if "k < length ts" for k
    by (rule snoc.IH[OF sub that])
  have orig: "ts ! k = (q, w)"
    if "r = Exact q w w'" "?st ! k = (q, w)" "closes ?st k" "k < length ts" for q w w' k
  proof -
    have c: "closes ts k" using that(3) closes_fst[OF fsts] by simp
    have e: "run1 rs1 True (ts ! k) = (q, w)" using ih[OF that(4)] that(2) c by simp
    from run1_cases[OF stab sub, of True "ts ! k"] show ?thesis
    proof
      assume "settled rs1 True (ts ! k) \<and> run1 rs1 True (ts ! k) = ts ! k"
      then show ?thesis using e by simp
    next
      assume "settled rs True (run1 rs1 True (ts ! k))"
      then have "\<not> fires r True (q, w)" using e r by (auto simp: settled_def)
      then show ?thesis using that(1) by simp
    qed
  qed
  have ndr: "rule_no_double r ?st"
  proof (cases r)
    case (Starts q w w')
    then show ?thesis by simp
  next
    case (Exact q w w')
    have "no_double q w ?st"
      unfolding no_double_def
    proof (rule notI, elim exE conjE)
      fix j
      assume j: "Suc (Suc j) < length ?st" "?st ! j = (q, w)" "?st ! Suc j = (q, w)"
        "fst (?st ! Suc (Suc j)) = q"
      have c0: "closes ?st j" using j by (simp add: closes_def)
      have c1: "closes ?st (Suc j)" using j by (simp add: closes_def)
      have t0: "ts ! j = (q, w)" using orig[OF Exact j(2) c0] j(1) len by simp
      have t1: "ts ! Suc j = (q, w)" using orig[OF Exact j(3) c1] j(1) len by simp
      have "fst (ts ! Suc (Suc j)) = fst (?st ! Suc (Suc j))"
        using fsts j(1) len by (metis nth_map)
      then have t2: "fst (ts ! Suc (Suc j)) = q" using j(4) by simp
      have "\<not> no_double q w ts"
        unfolding no_double_def using t0 t1 t2 j(1) len by auto
      moreover have "no_double q w ts" using nodbl r Exact by auto
      ultimately show False by simp
    qed
    then show ?thesis using Exact by simp
  qed
  have i': "i < length ?st" using snoc.prems(2) len by simp
  have "tok_steps (rs1 @ [r]) ts ! i = tok_step r ?st ! i"
    by (simp add: tok_steps_append)
  also have "\<dots> = step1 r (closes ?st i) (?st ! i)"
    by (rule tok_step_nth_nd[OF ndr i'])
  also have "\<dots> = step1 r (closes ts i) (run1 rs1 (closes ts i) (ts ! i))"
    using ih[OF snoc.prems(2)] closes_fst[OF fsts] by simp
  also have "\<dots> = run1 (rs1 @ [r]) (closes ts i) (ts ! i)"
    by (simp add: run1_append)
  finally show ?case .
qed

lemma tok_step_settled:
  assumes "\<forall>i < length ts. \<not> fires r (closes ts i) (ts ! i)"
  shows "tok_step r ts = ts"
proof (rule nth_equalityI)
  show "length (tok_step r ts) = length ts" by (rule tok_step_length)
next
  fix i
  assume "i < length (tok_step r ts)"
  then have i: "i < length ts" by (simp add: tok_step_length)
  have "step1 r (closes ts i) (ts ! i) = ts ! i" using assms i by (simp add: step1_def)
  then show "tok_step r ts ! i = ts ! i" using tok_step_nth[OF i, of r] by auto
qed

lemma tok_steps_settled:
  "\<forall>i < length ts. settled rs (closes ts i) (ts ! i) \<Longrightarrow> set rs' \<subseteq> set rs \<Longrightarrow>
   tok_steps rs' ts = ts"
proof (induction rs')
  case Nil
  show ?case by simp
next
  case (Cons r rs')
  have "tok_step r ts = ts"
    by (rule tok_step_settled) (use Cons.prems in \<open>auto simp: settled_def\<close>)
  then show ?case using Cons by simp
qed

lemma tok_steps_idem:
  assumes stab: "stable rs" and nodbl: "\<forall>r \<in> set rs. rule_no_double r ts"
  shows "tok_steps rs (tok_steps rs ts) = tok_steps rs ts"
proof (rule tok_steps_settled[of _ rs])
  let ?ts = "tok_steps rs ts"
  show "\<forall>i < length ?ts. settled rs (closes ?ts i) (?ts ! i)"
  proof (intro allI impI)
    fix i
    assume "i < length ?ts"
    then have i: "i < length ts" by (simp add: tok_steps_length)
    have "?ts ! i = run1 rs (closes ts i) (ts ! i)"
      by (rule tok_steps_nth[OF stab nodbl _ i]) simp
    moreover have "closes ?ts i = closes ts i" by (rule closes_fst[OF tok_steps_fst])
    ultimately show "settled rs (closes ?ts i) (?ts ! i)"
      using run1_is_settled[OF stab] by simp
  qed
qed simp

section \<open>The transformed buffer in tokens\<close>

lemma rep_exact_well_cut:
  "is_quote q \<Longrightarrow> plain w' \<Longrightarrow> well_cut ts \<Longrightarrow> well_cut (rep_exact q w w' ts)"
  by (induction q w w' ts rule: rep_exact.induct) auto

lemma rep_starts_well_cut:
  assumes "is_quote q" "plain w'" "well_cut ts"
  shows "well_cut (map (rep_starts q w w') ts)"
  using assms(3)
proof (induction ts)
  case Nil
  show ?case by simp
next
  case (Cons t ts)
  obtain q1 w1 where t: "t = (q1, w1)" by (cases t)
  have "plain (w' @ drop (length w) w1)" if "plain w1"
    using that assms(2) by (auto simp: plain_def dest: in_set_dropD)
  then show ?case using Cons t assms(1) by auto
qed

lemma tok_step_well_cut: "good_rule r \<Longrightarrow> well_cut ts \<Longrightarrow> well_cut (tok_step r ts)"
  by (cases r) (simp_all add: rep_exact_well_cut rep_starts_well_cut)

lemma tok_steps_well_cut: "list_all good_rule rs \<Longrightarrow> well_cut ts \<Longrightarrow> well_cut (tok_steps rs ts)"
  by (induction rs arbitrary: ts) (simp_all add: tok_step_well_cut)

lemma encode_step:
  assumes "good_rule r" "plain u" "well_cut ts"
  shows "str_replace (fst (encode r)) (snd (encode r)) (u @ spell ts) = u @ spell (tok_step r ts)"
proof (cases r)
  case (Exact q w w')
  have g: "is_quote q" "plain w" using assms(1) Exact by simp_all
  have "str_replace (q # w @ [q]) (q # w' @ [q]) (u @ spell ts)
          = u @ str_replace (q # w @ [q]) (q # w' @ [q]) (spell ts)"
    by (rule str_replace_plain[OF assms(2) g(1)])
  then show ?thesis using Exact rep_exact_spell[OF g assms(3)] by simp
next
  case (Starts q w w')
  have g: "is_quote q" "plain w" using assms(1) Starts by simp_all
  have "str_replace (q # w) (q # w') (u @ spell ts)
          = u @ str_replace (q # w) (q # w') (spell ts)"
    by (rule str_replace_plain[OF assms(2) g(1)])
  then show ?thesis using Starts rep_starts_spell[OF g assms(3)] by simp
qed

lemma apply_rules_tokens:
  "list_all good_rule rs \<Longrightarrow> plain u \<Longrightarrow> well_cut ts \<Longrightarrow>
   apply_rules (map encode rs) (u @ spell ts) = u @ spell (tok_steps rs ts)"
proof (induction rs arbitrary: ts)
  case Nil
  show ?case by simp
next
  case (Cons r rs)
  have g: "good_rule r" "list_all good_rule rs" using Cons.prems(1) by simp_all
  have "apply_rules (map encode (r # rs)) (u @ spell ts)
        = apply_rules (map encode rs)
            (str_replace (fst (encode r)) (snd (encode r)) (u @ spell ts))"
    by (cases "encode r") simp
  also have "\<dots> = apply_rules (map encode rs) (u @ spell (tok_step r ts))"
    by (simp only: encode_step[OF g(1) Cons.prems(2,3)])
  also have "\<dots> = u @ spell (tok_steps rs (tok_step r ts))"
    by (rule Cons.IH[OF g(2) Cons.prems(2) tok_step_well_cut[OF g(1) Cons.prems(3)]])
  finally show ?case by simp
qed

lemma new_content_tokens:
  assumes "toks s = (u, ts)"
  shows "new_content_of s = u @ spell (tok_steps TOKEN_RULES ts)"
    and "toks (new_content_of s) = (u, tok_steps TOKEN_RULES ts)"
proof -
  have s: "s = u @ spell ts" by (rule toks_spell[OF assms])
  have wc: "plain u" "well_cut ts" using toks_well_cut[OF assms] by simp_all
  show a: "new_content_of s = u @ spell (tok_steps TOKEN_RULES ts)"
    unfolding new_content_of_def table_encode[symmetric] s
    by (rule apply_rules_tokens[OF table_good wc])
  show "toks (new_content_of s) = (u, tok_steps TOKEN_RULES ts)"
    unfolding a by (rule toks_unique[OF wc(1) tok_steps_well_cut[OF table_good wc(2)]])
qed

lemma double_sublist:
  assumes "\<not> no_double q w ts"
  shows "sublist (q # w @ q # w @ [q]) (u @ spell ts)"
proof -
  from assms obtain j where j: "Suc (Suc j) < length ts" "ts ! j = (q, w)" "ts ! Suc j = (q, w)"
    "fst (ts ! Suc (Suc j)) = q"
    unfolding no_double_def by blast
  obtain x where x: "ts ! Suc (Suc j) = (q, x)" using j(4) by (cases "ts ! Suc (Suc j)") auto
  have "drop j ts = ts ! j # ts ! Suc j # ts ! Suc (Suc j) # drop (Suc (Suc (Suc j))) ts"
    using j(1) by (simp add: Cons_nth_drop_Suc Suc_lessD)
  then have "ts = take j ts @ (q, w) # (q, w) # (q, x) # drop (Suc (Suc (Suc j))) ts"
    using j(2,3) x by (metis append_take_drop_id)
  then have "spell ts = spell (take j ts) @ (q # w @ q # w @ [q])
                          @ (x @ spell (drop (Suc (Suc (Suc j))) ts))"
    by (metis (no_types, lifting) spell_append spell_simps(2) append_Cons append_Nil append_assoc)
  then have "u @ spell ts = (u @ spell (take j ts)) @ (q # w @ q # w @ [q])
                          @ (x @ spell (drop (Suc (Suc (Suc j))) ts))"
    by simp
  then show ?thesis unfolding sublist_def by blast
qed

lemma overlap_free_no_double:
  assumes "overlap_free s" "toks s = (u, ts)"
  shows "\<forall>r \<in> set TOKEN_RULES. rule_no_double r ts"
proof
  fix r
  assume r: "r \<in> set TOKEN_RULES"
  show "rule_no_double r ts"
  proof (cases r)
    case (Starts q w w')
    then show ?thesis by simp
  next
    case (Exact q w w')
    have "encode r \<in> set REPLACEMENTS"
      using r table_encode by (metis image_eqI set_map)
    then have "(q # w @ [q], q # w' @ [q]) \<in> set REPLACEMENTS" using Exact by simp
    then have "\<not> sublist ((q # w @ [q]) @ tl (q # w @ [q])) s"
      using assms(1) unfolding overlap_free_def by fastforce
    then have "\<not> sublist (q # w @ q # w @ [q]) (u @ spell ts)"
      using toks_spell[OF assms(2)] by simp
    then have "no_double q w ts" using double_sublist by blast
    then show ?thesis using Exact by simp
  qed
qed

text \<open>
  Whatever the text, a token of the result is the token of the input or what one rule that
  applies to the token of the input makes of it.
\<close>

lemma tok_steps_origin:
  assumes "stable rs"
  shows "set rs' \<subseteq> set rs \<Longrightarrow> i < length ts \<Longrightarrow>
    tok_steps rs' ts ! i = ts ! i \<or>
    (\<exists>r \<in> set rs'. fires r (closes ts i) (ts ! i) \<and> tok_steps rs' ts ! i = rewrite1 r (ts ! i))"
proof (induction rs' arbitrary: ts)
  case Nil
  show ?case by simp
next
  case (Cons r rs')
  have r: "r \<in> set rs" and sub: "set rs' \<subseteq> set rs" using Cons.prems(1) by auto
  let ?t1 = "tok_step r ts"
  have i1: "i < length ?t1" using Cons.prems(2) by (simp add: tok_step_length)
  have c1: "closes ?t1 i = closes ts i" by (rule closes_fst[OF tok_step_fst])
  note ih = Cons.IH[OF sub i1]
  show ?case
  proof (cases "?t1 ! i = ts ! i")
    case True
    then show ?thesis using ih c1 by auto
  next
    case False
    then have s1: "?t1 ! i = step1 r (closes ts i) (ts ! i)"
      using tok_step_nth[OF Cons.prems(2), of r] by simp
    then have f: "fires r (closes ts i) (ts ! i)" and e: "?t1 ! i = rewrite1 r (ts ! i)"
      using False by (auto simp: step1_def split: if_splits)
    have "settled rs (closes ts i) (rewrite1 r (ts ! i))"
      using assms r f unfolding stable_def by blast
    then have "settled rs (closes ts i) (?t1 ! i)" using e by simp
    then have "\<forall>r' \<in> set rs'. \<not> fires r' (closes ?t1 i) (?t1 ! i)"
      using sub c1 by (auto simp: settled_def)
    then have "tok_steps rs' ?t1 ! i = ?t1 ! i" using ih by blast
    then show ?thesis using f e by simp
  qed
qed

lemma tok_steps_hit:
  assumes stab: "stable rs" and r: "Exact q w w' \<in> set rs"
    and excl: "\<forall>r0 \<in> set rs. fires r0 True (q, w) \<longrightarrow> r0 = Exact q w w'"
    and t: "ts ! i = (q, w)" and c: "closes ts i" and p: "i = 0 \<or> ts ! (i - 1) \<noteq> (q, w)"
  shows "tok_steps rs ts ! i = (q, w')"
proof -
  let ?r = "Exact q w w'"
  obtain rs1 rs2 where rs: "rs = rs1 @ ?r # rs2" and first: "?r \<notin> set rs1"
    using split_list_first[OF r] by blast
  have sub1: "set rs1 \<subseteq> set rs" and sub2: "set rs2 \<subseteq> set rs" using rs by auto
  have i: "i < length ts" "Suc i < length ts" using c by (simp_all add: closes_def)
  let ?st = "tok_steps rs1 ts"
  have len: "length ?st = length ts" by (rule tok_steps_length)
  have fsts: "map fst ?st = map fst ts" by (rule tok_steps_fst)
  have fk: "fst (?st ! k) = fst (ts ! k)" if "k < length ts" for k
    using fsts that len by (metis nth_map)
  have a: "?st ! i = (q, w)"
  proof -
    from tok_steps_origin[OF stab sub1 i(1)] show ?thesis
    proof
      assume "?st ! i = ts ! i"
      then show ?thesis using t by simp
    next
      assume "\<exists>r0 \<in> set rs1. fires r0 (closes ts i) (ts ! i) \<and> ?st ! i = rewrite1 r0 (ts ! i)"
      then obtain r0 where "r0 \<in> set rs1" "fires r0 True (q, w)" using c t by auto
      then have "r0 = ?r" using excl sub1 by blast
      then show ?thesis using \<open>r0 \<in> set rs1\<close> first by simp
    qed
  qed
  have b: "i = 0 \<or> ?st ! (i - 1) \<noteq> (q, w)"
  proof (cases i)
    case 0
    then show ?thesis by simp
  next
    case (Suc j)
    have j: "j < length ts" using i(1) Suc by simp
    have "?st ! j \<noteq> (q, w)"
    proof
      assume e: "?st ! j = (q, w)"
      have cj: "closes ts j" using fk[OF j] e t i(1) Suc by (simp add: closes_def)
      from tok_steps_origin[OF stab sub1 j] show False
      proof
        assume "?st ! j = ts ! j"
        then show False using e p Suc by simp
      next
        assume "\<exists>r0 \<in> set rs1. fires r0 (closes ts j) (ts ! j) \<and> ?st ! j = rewrite1 r0 (ts ! j)"
        then obtain r0 where r0: "r0 \<in> set rs1" "fires r0 True (ts ! j)"
          "rewrite1 r0 (ts ! j) = (q, w)"
          using cj e by auto
        have "settled rs True (rewrite1 r0 (ts ! j))"
          using stab r0(1,2) sub1 unfolding stable_def by blast
        then have "\<not> fires ?r True (q, w)" using r r0(3) by (auto simp: settled_def)
        then show False by simp
      qed
    qed
    then show ?thesis using Suc by simp
  qed
  let ?s2 = "tok_step ?r ?st"
  have h: "?s2 ! i = (q, w')"
  proof -
    have "fst (?st ! Suc i) = q" using fk[OF i(2)] c t by (simp add: closes_def)
    then have "rep_exact q w w' ?st ! i = (q, w')"
      using rep_exact_nth_first[OF a _ _ b] i(2) len by simp
    then show ?thesis by simp
  qed
  have len2: "i < length ?s2" using i(1) len by (simp add: rep_exact_length)
  have c2: "closes ?s2 i"
    using c closes_fst[OF tok_step_fst, of ?r ?st i] closes_fst[OF fsts, of i] by simp
  have fin: "tok_steps rs ts = tok_steps rs2 ?s2" unfolding rs by (simp add: tok_steps_append)
  have "settled rs True (rewrite1 ?r (q, w))"
    using stab r unfolding stable_def by (metis fires.simps(1))
  then have s: "settled rs True (q, w')" by simp
  from tok_steps_origin[OF stab sub2 len2] have "tok_steps rs2 ?s2 ! i = ?s2 ! i"
  proof
    assume "tok_steps rs2 ?s2 ! i = ?s2 ! i"
    then show ?thesis .
  next
    assume "\<exists>r0 \<in> set rs2. fires r0 (closes ?s2 i) (?s2 ! i) \<and>
              tok_steps rs2 ?s2 ! i = rewrite1 r0 (?s2 ! i)"
    then obtain r0 where "r0 \<in> set rs2" "fires r0 True (q, w')" using c2 h by auto
    then show ?thesis using s sub2 by (auto simp: settled_def)
  qed
  then show ?thesis using fin h by simp
qed

lemma table_hit:
  assumes "Exact q w w' \<in> set TOKEN_RULES" "ts ! i = (q, w)" "closes ts i"
    "i = 0 \<or> ts ! (i - 1) \<noteq> (q, w)"
  shows "tok_steps TOKEN_RULES ts ! i = (q, w')"
proof (rule tok_steps_hit[OF table_stable assms(1) _ assms(2,3,4)])
  show "\<forall>r0 \<in> set TOKEN_RULES. fires r0 True (q, w) \<longrightarrow> r0 = Exact q w w'"
    using assms(1) unfolding TOKEN_RULES_def by auto
qed

lemma table_origin:
  assumes "i < length ts"
  shows "tok_steps TOKEN_RULES ts ! i = ts ! i \<or>
    (\<exists>r \<in> set TOKEN_RULES. fires r (closes ts i) (ts ! i) \<and>
       tok_steps TOKEN_RULES ts ! i = rewrite1 r (ts ! i))"
  by (rule tok_steps_origin[OF table_stable _ assms]) simp

section \<open>Occurrences in the text and tokens\<close>

lemma sublist_skip_plain:
  "plain u \<Longrightarrow> is_quote q \<Longrightarrow> sublist (q # w) (u @ s) \<Longrightarrow> sublist (q # w) s"
  by (induction u) (auto simp: sublist_Cons_right plain_def)

lemma sublist_quote_word:
  "plain u \<Longrightarrow> well_cut ts \<Longrightarrow> plain w \<Longrightarrow> is_quote q \<Longrightarrow> sublist (q # w) (u @ spell ts) \<Longrightarrow>
   \<exists>i < length ts. fst (ts ! i) = q \<and> prefix w (snd (ts ! i))"
proof (induction ts arbitrary: u)
  case Nil
  then have "sublist (q # w) []" using sublist_skip_plain[of u q w "[]"] by simp
  then show ?case by simp
next
  case (Cons t ts)
  obtain q1 w1 where t: "t = (q1, w1)" by (cases t)
  have wc: "is_quote q1" "plain w1" "well_cut ts" using Cons.prems(2) t by simp_all
  have "sublist (q # w) (q1 # w1 @ spell ts)"
    using sublist_skip_plain[OF Cons.prems(1,4), of w "spell (t # ts)"] Cons.prems(5) t by simp
  then consider (here) "prefix (q # w) (q1 # w1 @ spell ts)"
    | (later) "sublist (q # w) (w1 @ spell ts)"
    by (auto simp: sublist_Cons_right)
  then show ?case
  proof cases
    case here
    then have "q = q1" "prefix w (w1 @ spell ts)" by simp_all
    then have "prefix w w1"
      using prefix_word_plain[OF Cons.prems(3) spell_head[OF wc(3)], of w1] by simp
    then show ?thesis using \<open>q = q1\<close> t by auto
  next
    case later
    from Cons.IH[OF wc(2,3) Cons.prems(3,4) later] obtain i where
      "i < length ts" "fst (ts ! i) = q" "prefix w (snd (ts ! i))" by blast
    then have "Suc i < length (t # ts) \<and> fst ((t # ts) ! Suc i) = q \<and>
               prefix w (snd ((t # ts) ! Suc i))" by simp
    then show ?thesis by blast
  qed
qed

lemma well_cut_nth:
  assumes "well_cut ts" "i < length ts"
  shows "is_quote (fst (ts ! i)) \<and> plain (snd (ts ! i))"
proof -
  obtain q w where t: "ts ! i = (q, w)" by (cases "ts ! i")
  have "(q, w) \<in> set ts" using nth_mem[OF assms(2)] t by simp
  then have "is_quote q \<and> plain w" using assms(1) unfolding well_cut_def by blast
  then show ?thesis using t by simp
qed

lemma table_split:
  "TOKEN_RULES = take 12 TOKEN_RULES @
     [Starts SQ ''@modules/'' ''@/modules/'', Starts DQ ''@modules/'' ''@/modules/'']"
  by (simp add: TOKEN_RULES_def)

lemma table_starts_last:
  "tok_steps TOKEN_RULES ts =
     map (rep_starts DQ ''@modules/'' ''@/modules/'')
       (map (rep_starts SQ ''@modules/'' ''@/modules/'') (tok_steps (take 12 TOKEN_RULES) ts))"
proof -
  have "tok_steps (take 12 TOKEN_RULES @
     [Starts SQ ''@modules/'' ''@/modules/'', Starts DQ ''@modules/'' ''@/modules/'']) ts =
     map (rep_starts DQ ''@modules/'' ''@/modules/'')
       (map (rep_starts SQ ''@modules/'' ''@/modules/'') (tok_steps (take 12 TOKEN_RULES) ts))"
    by (simp only: tok_steps_append tok_steps.simps tok_step.simps)
  then show ?thesis unfolding table_split[symmetric] .
qed

lemma exact_keeps_modules:
  assumes "i < length ts" "prefix ''@modules/'' (snd (ts ! i))"
  shows "tok_steps (take 12 TOKEN_RULES) ts ! i = ts ! i"
proof -
  have sub: "set (take 12 TOKEN_RULES) \<subseteq> set TOKEN_RULES" by (rule set_take_subset)
  obtain q1 w1 where t: "ts ! i = (q1, w1)" by (cases "ts ! i")
  have "\<not> fires r c (q1, w1)" if "r \<in> set (take 12 TOKEN_RULES)" for r c
    using that assms(2) t unfolding TOKEN_RULES_def by auto
  then show ?thesis using tok_steps_origin[OF table_stable sub assms(1)] t by auto
qed

lemma starts_both:
  "is_quote q \<Longrightarrow>
   rep_starts DQ ''@modules/'' ''@/modules/'' (rep_starts SQ ''@modules/'' ''@/modules/'' (q, w))
     = (if prefix ''@modules/'' w then (q, ''@/modules/'' @ drop (length ''@modules/'') w)
        else (q, w))"
  by (auto simp: is_quote_def)

lemma table_final_modules:
  assumes "well_cut ts" "i < length ts"
  shows "\<not> prefix ''@modules/'' (snd (tok_steps TOKEN_RULES ts ! i))"
proof -
  let ?st = "tok_steps (take 12 TOKEN_RULES) ts"
  have i: "i < length ?st" using assms(2) by (simp add: tok_steps_length)
  obtain q1 w1 where t: "?st ! i = (q1, w1)" by (cases "?st ! i")
  have "fst (?st ! i) = fst (ts ! i)"
    using tok_steps_fst[of "take 12 TOKEN_RULES" ts] assms(2) i by (metis nth_map)
  then have q: "is_quote q1" using well_cut_nth[OF assms] t by simp
  have "tok_steps TOKEN_RULES ts ! i =
    rep_starts DQ ''@modules/'' ''@/modules/'' (rep_starts SQ ''@modules/'' ''@/modules/'' (q1, w1))"
    unfolding table_starts_last using i t by simp
  then show ?thesis unfolding starts_both[OF q] by simp
qed

section \<open>Idempotence\<close>




section \<open>The two rules for \<open>@platform/ui\<close> and \<open>@platform/ui-kit\<close>\<close>

text \<open>
  Claim C2. The rules for \<open>@platform/ui-kit\<close> and for \<open>@platform/ui\<close> act on
  different occurrences. In every text, a quoted \<open>@platform/ui-kit\<close> (the word between
  two quotes of the same kind, the opening quote not being at once the closing quote of
  the same quoted word before it) becomes \<open>@super-platform/ui\<close> between the same quotes,
  and a quoted \<open>@platform/ui\<close> becomes \<open>@super-platform/ui-base\<close>. In the other
  direction, for every text without condition: a word \<open>@super-platform/ui\<close> of the result
  stands where the input has \<open>@platform/ui-kit\<close> or that word itself, and a word
  \<open>@super-platform/ui-base\<close> where the input has \<open>@platform/ui\<close> or that word itself.
  The quotes and the number of tokens stay as they are.
\<close>

theorem ui_rules_independent:
  assumes "toks s = (u, ts)" "i < length ts"
  shows "\<exists>ts'. toks (new_content_of s) = (u, ts') \<and> length ts' = length ts \<and>
      (closes ts i \<and> (i = 0 \<or> ts ! (i - 1) \<noteq> ts ! i) \<and> snd (ts ! i) = ''@platform/ui-kit'' \<longrightarrow>
         ts' ! i = (fst (ts ! i), ''@super-platform/ui'')) \<and>
      (closes ts i \<and> (i = 0 \<or> ts ! (i - 1) \<noteq> ts ! i) \<and> snd (ts ! i) = ''@platform/ui'' \<longrightarrow>
         ts' ! i = (fst (ts ! i), ''@super-platform/ui-base'')) \<and>
      (snd (ts' ! i) = ''@super-platform/ui'' \<longrightarrow>
         snd (ts ! i) = ''@platform/ui-kit'' \<or> snd (ts ! i) = ''@super-platform/ui'') \<and>
      (snd (ts' ! i) = ''@super-platform/ui-base'' \<longrightarrow>
         snd (ts ! i) = ''@platform/ui'' \<or> snd (ts ! i) = ''@super-platform/ui-base'')"
proof -
  let ?ts = "tok_steps TOKEN_RULES ts"
  obtain q w where t: "ts ! i = (q, w)" by (cases "ts ! i")
  have "is_quote q" using well_cut_nth[OF _ assms(2)] toks_well_cut[OF assms(1)] t by simp
  then have q: "q = SQ \<or> q = DQ" by (simp add: is_quote_def)
  have a: "toks (new_content_of s) = (u, ?ts)" by (rule new_content_tokens(2)[OF assms(1)])
  have b: "length ?ts = length ts" by (rule tok_steps_length)
  have kit: "?ts ! i = (fst (ts ! i), ''@super-platform/ui'')"
    if h: "closes ts i" "i = 0 \<or> ts ! (i - 1) \<noteq> ts ! i" "snd (ts ! i) = ''@platform/ui-kit''"
  proof -
    have "Exact q ''@platform/ui-kit'' ''@super-platform/ui'' \<in> set TOKEN_RULES"
      using q by (auto simp: TOKEN_RULES_def)
    then have "?ts ! i = (q, ''@super-platform/ui'')"
      by (rule table_hit) (use h t in simp_all)
    then show ?thesis using t by simp
  qed
  have ui: "?ts ! i = (fst (ts ! i), ''@super-platform/ui-base'')"
    if h: "closes ts i" "i = 0 \<or> ts ! (i - 1) \<noteq> ts ! i" "snd (ts ! i) = ''@platform/ui''"
  proof -
    have "Exact q ''@platform/ui'' ''@super-platform/ui-base'' \<in> set TOKEN_RULES"
      using q by (auto simp: TOKEN_RULES_def)
    then have "?ts ! i = (q, ''@super-platform/ui-base'')"
      by (rule table_hit) (use h t in simp_all)
    then show ?thesis using t by simp
  qed
  have orig: "snd (ts ! i) = w0 \<or> snd (ts ! i) = w1"
    if h1: "snd (?ts ! i) = w1"
      and h2: "w1 = ''@super-platform/ui'' \<and> w0 = ''@platform/ui-kit'' \<or>
               w1 = ''@super-platform/ui-base'' \<and> w0 = ''@platform/ui''" for w0 w1
  proof -
    from table_origin[OF assms(2)] show ?thesis
    proof
      assume "?ts ! i = ts ! i"
      then show ?thesis using h1 by simp
    next
      assume "\<exists>r \<in> set TOKEN_RULES. fires r (closes ts i) (ts ! i) \<and> ?ts ! i = rewrite1 r (ts ! i)"
      then obtain r where r: "r \<in> set TOKEN_RULES" "fires r (closes ts i) (q, w)"
        "snd (rewrite1 r (q, w)) = w1"
        using t h1 by auto
      then have "w = w0" using h2 unfolding TOKEN_RULES_def by auto
      then show ?thesis using t by simp
    qed
  qed
  have k2: "snd (?ts ! i) = ''@super-platform/ui'' \<longrightarrow>
         snd (ts ! i) = ''@platform/ui-kit'' \<or> snd (ts ! i) = ''@super-platform/ui''"
    using orig[of "''@super-platform/ui''" "''@platform/ui-kit''"] by blast
  have u2: "snd (?ts ! i) = ''@super-platform/ui-base'' \<longrightarrow>
         snd (ts ! i) = ''@platform/ui'' \<or> snd (ts ! i) = ''@super-platform/ui-base''"
    using orig[of "''@super-platform/ui-base''" "''@platform/ui''"] by blast
  show ?thesis
    using a b kit ui k2 u2 by (intro exI[of _ ?ts]) blast
qed

theorem ui_rules_independent_witness:
  "toks ui_lines =
     (''import { B } from '',
      [(SQ, ''@platform/ui''), (SQ, '';'' @ CHR 0x0A # ''import { K } from ''),
       (SQ, ''@platform/ui-kit''), (SQ, '';'' @ [CHR 0x0A])])
   \<and> (\<exists>ts'. toks (new_content_of ui_lines) = (''import { B } from '', ts') \<and>
         ts' ! 0 = (SQ, ''@super-platform/ui-base'') \<and> ts' ! 2 = (SQ, ''@super-platform/ui''))"
proof -
  let ?ts = "[(SQ, ''@platform/ui''), (SQ, '';'' @ CHR 0x0A # ''import { K } from ''),
       (SQ, ''@platform/ui-kit''), (SQ, '';'' @ [CHR 0x0A])]"
  have t: "toks ui_lines = (''import { B } from '', ?ts)"
    by (simp add: ui_lines_def is_quote_def)
  from ui_rules_independent[OF t, of 0] obtain ts' where
    a: "toks (new_content_of ui_lines) = (''import { B } from '', ts')"
       "ts' ! 0 = (SQ, ''@super-platform/ui-base'')"
    by (auto simp: closes_def)
  from ui_rules_independent[OF t, of 2] obtain ts'' where
    b: "toks (new_content_of ui_lines) = (''import { B } from '', ts'')"
       "ts'' ! 2 = (SQ, ''@super-platform/ui'')"
    by (auto simp: closes_def)
  have "ts'' = ts'" using a(1) b(1) by simp
  then have c: "ts' ! 2 = (SQ, ''@super-platform/ui'')" using b(2) by simp
  have "\<exists>ts'. toks (new_content_of ui_lines) = (''import { B } from '', ts') \<and>
         ts' ! 0 = (SQ, ''@super-platform/ui-base'') \<and> ts' ! 2 = (SQ, ''@super-platform/ui'')"
    by (intro exI[of _ ts'] conjI) (fact a(1), fact a(2), fact c)
  with t show ?thesis by (rule conjI)
qed

section \<open>The two rules for \<open>@modules/\<close>\<close>

text \<open>
  Claim C4. The two patterns for \<open>@modules/\<close> end without a quote. In every text, a quote
  followed by \<open>@modules/\<close> becomes that quote followed by \<open>@/modules/\<close>, with what
  follows \<open>@modules/\<close> up to the next quote left as it is, whatever it is; no quote
  followed by \<open>@modules/\<close> is left in the result. The content
  \<open>import { A } from "@modules/auth/login";\<close> becomes
  \<open>import { A } from "@/modules/auth/login";\<close>.
\<close>

theorem modules_prefix_rewritten:
  assumes "toks s = (u, ts)" "i < length ts" "prefix ''@modules/'' (snd (ts ! i))"
  shows "(\<exists>ts'. toks (new_content_of s) = (u, ts') \<and> length ts' = length ts \<and>
            ts' ! i = (fst (ts ! i), ''@/modules/'' @ drop (length ''@modules/'') (snd (ts ! i))))
     \<and> \<not> sublist (SQ # ''@modules/'') (new_content_of s)
     \<and> \<not> sublist (DQ # ''@modules/'') (new_content_of s)
     \<and> new_content_of modules_line
         = ''import { A } from '' @ DQ # ''@/modules/auth/login'' @ DQ # '';''"
proof -
  let ?ts = "tok_steps TOKEN_RULES ts"
  let ?st = "tok_steps (take 12 TOKEN_RULES) ts"
  have wc: "plain u" "well_cut ts" using toks_well_cut[OF assms(1)] by simp_all
  have wc': "well_cut ?ts" by (rule tok_steps_well_cut[OF table_good wc(2)])
  obtain q w where t: "ts ! i = (q, w)" by (cases "ts ! i")
  have q: "is_quote q" using well_cut_nth[OF wc(2) assms(2)] t by simp
  have a: "toks (new_content_of s) = (u, ?ts)" by (rule new_content_tokens(2)[OF assms(1)])
  have b: "length ?ts = length ts" by (rule tok_steps_length)
  have "?st ! i = (q, w)" using exact_keeps_modules[OF assms(2,3)] t by simp
  moreover have "i < length ?st" using assms(2) by (simp add: tok_steps_length)
  ultimately have "?ts ! i =
    rep_starts DQ ''@modules/'' ''@/modules/'' (rep_starts SQ ''@modules/'' ''@/modules/'' (q, w))"
    unfolding table_starts_last by simp
  then have c: "?ts ! i = (fst (ts ! i), ''@/modules/'' @ drop (length ''@modules/'') (snd (ts ! i)))"
    unfolding starts_both[OF q] using assms(3) t by simp
  have none: "\<not> sublist (q0 # ''@modules/'') (new_content_of s)" if q0: "is_quote q0" for q0
  proof
    assume "sublist (q0 # ''@modules/'') (new_content_of s)"
    then have "sublist (q0 # ''@modules/'') (u @ spell ?ts)"
      using new_content_tokens(1)[OF assms(1)] by simp
    then obtain k where k: "k < length ?ts" "prefix ''@modules/'' (snd (?ts ! k))"
      using sublist_quote_word[OF wc(1) wc' _ q0, of "''@modules/''"]
      by (auto simp: plain_def is_quote_def)
    then show False using table_final_modules[OF wc(2), of k] b by simp
  qed
  have ex: "new_content_of modules_line
         = ''import { A } from '' @ DQ # ''@/modules/auth/login'' @ DQ # '';''"
    by (simp add: new_content_of_def REPLACEMENTS_def modules_line_def)
  have "\<exists>ts'. toks (new_content_of s) = (u, ts') \<and> length ts' = length ts \<and>
            ts' ! i = (fst (ts ! i), ''@/modules/'' @ drop (length ''@modules/'') (snd (ts ! i)))"
    using a b c by blast
  then show ?thesis using none[of SQ] none[of DQ] ex by (simp add: is_quote_def)
qed

theorem modules_prefix_rewritten_witness:
  "toks modules_line = (''import { A } from '', [(DQ, ''@modules/auth/login''), (DQ, '';'')])
   \<and> prefix ''@modules/'' ''@modules/auth/login''
   \<and> (\<exists>ts'. toks (new_content_of modules_line) = (''import { A } from '', ts') \<and>
         ts' ! 0 = (DQ, ''@/modules/auth/login''))
   \<and> \<not> sublist (DQ # ''@modules/'') (new_content_of modules_line)
   \<and> toks (SQ # ''@modules/'') = ([], [(SQ, ''@modules/'')])
   \<and> (\<exists>ts'. toks (new_content_of (SQ # ''@modules/'')) = ([], ts') \<and>
         ts' ! 0 = (SQ, ''@/modules/''))"
proof -
  have t: "toks modules_line
             = (''import { A } from '', [(DQ, ''@modules/auth/login''), (DQ, '';'')])"
    by (simp add: modules_line_def is_quote_def)
  have l: "0 < length [(DQ, ''@modules/auth/login''), (DQ, '';'')]" by simp
  have p: "prefix ''@modules/'' ''@modules/auth/login''" by simp
  then have p': "prefix ''@modules/'' (snd ([(DQ, ''@modules/auth/login''), (DQ, '';'')] ! 0))"
    by simp
  have t2: "toks (SQ # ''@modules/'') = ([], [(SQ, ''@modules/'')])"
    by (simp add: is_quote_def)
  note m1 = modules_prefix_rewritten[OF t l p']
  note m2 = modules_prefix_rewritten[OF t2, of 0]
  have a: "\<exists>ts'. toks (new_content_of modules_line) = (''import { A } from '', ts') \<and>
         ts' ! 0 = (DQ, ''@/modules/auth/login'')"
    using m1[THEN conjunct1] by auto
  have b: "\<not> sublist (DQ # ''@modules/'') (new_content_of modules_line)"
    by (rule m1[THEN conjunct2, THEN conjunct2, THEN conjunct1])
  have c: "\<exists>ts'. toks (new_content_of (SQ # ''@modules/'')) = ([], ts') \<and>
         ts' ! 0 = (SQ, ''@/modules/'')"
    using m2 by auto
  from t p a b t2 c show ?thesis by (intro conjI)
qed

end
